theory Spec2Isabelle
  imports Main
begin

section \<open>JavaScript values\<close>

text \<open>
  The values the middleware handles are JavaScript values. A promise is represented by
  the state it eventually reaches: fulfilled with a value, rejected with a reason, or
  never settled. \<open>Fn r\<close> is a function value whose zero-argument call completes with
  \<open>r\<close> (\<open>Inl\<close> a thrown value, \<open>Inr\<close> the returned value); it is what the default
  resolver may find in a property of the source object. \<open>Err m\<close> is an \<open>Error\<close> object
  with message \<open>m\<close>. Numbers are integers here (no \<open>NaN\<close>), and objects other than
  promises have no callable \<open>then\<close> member that the promise machinery would adopt.
\<close>

datatype 'a pstate = Pending | Fulfilled 'a | Rejected 'a

datatype jsval =
    Undefined
  | Null
  | Bool bool
  | Num int
  | Str string
  | Obj "(string \<times> jsval) list"
  | Fn "jsval + jsval"
  | Err string
  | Promise "jsval pstate"

text \<open>A completion: \<open>Inl e\<close> is \<open>throw e\<close>, \<open>Inr v\<close> is \<open>return v\<close>.\<close>

type_synonym completion = "jsval + jsval"

definition TypeError :: jsval where
  "TypeError = Err ''TypeError''"

fun truthy :: "jsval \<Rightarrow> bool" where
  "truthy Undefined = False"
| "truthy Null = False"
| "truthy (Bool b) = b"
| "truthy (Num n) = (n \<noteq> 0)"
| "truthy (Str s) = (s \<noteq> [])"
| "truthy _ = True"

text \<open>\<open>a || b\<close>\<close>

definition js_or :: "jsval \<Rightarrow> jsval \<Rightarrow> jsval" where
  "js_or a b = (if truthy a then a else b)"

text \<open>\<open>o[k]\<close> on a value that is not \<open>undefined\<close> or \<open>null\<close>.\<close>

fun get_prop :: "jsval \<Rightarrow> string \<Rightarrow> jsval" where
  "get_prop (Obj kvs) k = (case map_of kvs k of None \<Rightarrow> Undefined | Some v \<Rightarrow> v)"
| "get_prop _ k = Undefined"

text \<open>\<open>Promise.resolve(x)\<close>: a promise is returned as it is.\<close>

fun promise_resolve :: "jsval \<Rightarrow> jsval pstate" where
  "promise_resolve (Promise p) = p"
| "promise_resolve v = Fulfilled v"

section \<open>Directives, AST nodes and the host engine\<close>

text \<open>
  A directive node, as the middleware reads it: \<open>d.name.value\<close> and the argument nodes
  (opaque to the middleware, consumed by the host's \<open>getDirectiveValues\<close>).
\<close>

record dnode =
  dn_kind :: string
  dn_name :: string
  dn_arguments :: "jsval list"

text \<open>
  The transform of a directive: \<open>resolve(next, source, args, context, info)\<close>. Its
  contract is to return a promise, whose eventual state is the result here; it may also
  throw. A transform that returns anything else is outside the contract and not
  represented.
\<close>

type_synonym ('c, 'i) transform =
  "(unit \<Rightarrow> completion) \<Rightarrow> jsval \<Rightarrow> jsval \<Rightarrow> 'c \<Rightarrow> 'i \<Rightarrow> jsval + jsval pstate"

text \<open>An entry of \<open>schema._directives\<close>; \<open>d_resolve\<close> is absent on a plain directive.\<close>

record ('c, 'i) directive =
  d_name :: string
  d_resolve :: "('c, 'i) transform option"

text \<open>
  The host engine: what the middleware reads from the resolution info object \<open>'i\<close>
  (\<open>info.schema._directives\<close>, \<open>info.variableValues\<close>, \<open>info.fieldASTs\<close>,
  \<open>info.fieldNodes\<close>, \<open>info.fieldName\<close>; a field node is given by its \<open>directives\<close>
  array), the library function \<open>getDirectiveValues\<close>, and the member lookup
  \<open>source[fieldName]\<close> of the runtime on a source value other than \<open>null\<close> and
  \<open>undefined\<close>. The lookup finds own and inherited members alike; what a value
  inherits, and the members of functions, errors and promises, are not part of the
  value representation, so the lookup is a parameter. It gives a function member as
  \<open>Fn r\<close>, with \<open>r\<close> the completion of calling it without arguments on that source.
\<close>

record ('c, 'i) host =
  schema_directives :: "'i \<Rightarrow> ('c, 'i) directive list"
  variableValues :: "'i \<Rightarrow> jsval"
  fieldASTs :: "'i \<Rightarrow> dnode list list option"
  fieldNodes :: "'i \<Rightarrow> dnode list list option"
  fieldName :: "'i \<Rightarrow> string"
  getDirectiveValues :: "('c, 'i) directive option \<Rightarrow> dnode \<Rightarrow> jsval \<Rightarrow> completion"
  js_member :: "jsval \<Rightarrow> string \<Rightarrow> jsval"

definition DEFAULT_DIRECTIVES :: "string list" where
  "DEFAULT_DIRECTIVES = [''skip'', ''include'']"

section \<open>defaultResolveFn\<close>

fun js_typeof :: "jsval \<Rightarrow> string" where
  "js_typeof Undefined = ''undefined''"
| "js_typeof Null = ''object''"
| "js_typeof (Bool b) = ''boolean''"
| "js_typeof (Num n) = ''number''"
| "js_typeof (Str s) = ''string''"
| "js_typeof (Obj kvs) = ''object''"
| "js_typeof (Fn r) = ''function''"
| "js_typeof (Err m) = ''object''"
| "js_typeof (Promise p) = ''object''"

text \<open>\<open>o[k]\<close> in general: reading a member of \<open>undefined\<close> or \<open>null\<close> throws.\<close>

definition member :: "jsval \<Rightarrow> string \<Rightarrow> completion" where
  "member v k = (if v = Undefined \<or> v = Null then Inl TypeError else Inr (get_prop v k))"

text \<open>
  \<open>typeof null\<close> is \<open>object\<close>, so a \<open>null\<close> source reaches the member read, which
  throws.
\<close>

definition defaultResolveFn ::
  "('c, 'i) host \<Rightarrow> jsval \<Rightarrow> jsval \<Rightarrow> 'c \<Rightarrow> 'i \<Rightarrow> completion" where
  "defaultResolveFn h source args context info =
     (if js_typeof source = ''object'' \<or> js_typeof source = ''function'' then
        (if source = Null then Inl TypeError
         else if js_typeof (js_member h source (fieldName h info)) = ''function''
           then (case js_member h source (fieldName h info) of
                   Fn r \<Rightarrow> r
                 | v \<Rightarrow> Inr v)
           else Inr (js_member h source (fieldName h info)))
      else Inr Undefined)"

section \<open>resolveWithDirective\<close>

text \<open>
  One call of a directive's transform, as observed from outside: the directive's name
  and the five arguments the transform received.
\<close>

record ('c, 'i) invocation =
  i_directive :: string
  i_next :: "unit \<Rightarrow> completion"
  i_source :: jsval
  i_args :: jsval
  i_context :: 'c
  i_info :: 'i

text \<open>
  \<open>resolveWithDirective(resolve, source, directive, context, info)\<close>. Its first
  statement replaces a falsy \<open>source\<close> by \<open>info.variableValues.input_0\<close>, else by
  \<open>info.variableValues.input\<close>, else by an empty object (\<open>source_or_input\<close>). The result is
  the completion of the call together with the transform invocation it made, if it got
  that far. \<open>filter(...)[0]\<close> is \<open>undefined\<close> when no registered directive has the name;
  then whatever \<open>getDirectiveValues\<close> does, reading \<open>directiveConfig.resolve\<close> throws;
  calling an absent \<open>resolve\<close> member throws too.
\<close>

definition source_or_input :: "('c, 'i) host \<Rightarrow> jsval \<Rightarrow> 'i \<Rightarrow> jsval" where
  "source_or_input h source info =
     js_or source
       (js_or (get_prop (js_or (variableValues h info) (Obj [])) ''input_0'')
          (js_or (get_prop (js_or (variableValues h info) (Obj [])) ''input'')
             (Obj [])))"

definition resolveWithDirective ::
  "('c, 'i) host \<Rightarrow> (unit \<Rightarrow> completion) \<Rightarrow> jsval \<Rightarrow> dnode \<Rightarrow> 'c \<Rightarrow> 'i
     \<Rightarrow> (jsval + jsval pstate) \<times> ('c, 'i) invocation list" where
  "resolveWithDirective h resolve source directive context info =
     (let source' = source_or_input h source info;
          directiveConfig =
            (case filter (\<lambda>d. dn_name directive = d_name d) (schema_directives h info) of
               [] \<Rightarrow> None
             | d # _ \<Rightarrow> Some d)
      in case getDirectiveValues h directiveConfig directive (variableValues h info) of
           Inl e \<Rightarrow> (Inl e, [])
         | Inr args \<Rightarrow>
             (case directiveConfig of
                None \<Rightarrow> (Inl TypeError, [])
              | Some cfg \<Rightarrow>
                  (case d_resolve cfg of
                     None \<Rightarrow> (Inl TypeError, [])
                   | Some t \<Rightarrow>
                       (t resolve source' args context info,
                        [\<lparr>i_directive = d_name cfg, i_next = resolve, i_source = source',
                          i_args = args, i_context = context, i_info = info\<rparr>]))))"

section \<open>parseSchemaDirectives\<close>

text \<open>\<open>x instanceof Object\<close>\<close>

fun instanceof_Object :: "jsval \<Rightarrow> bool" where
  "instanceof_Object (Obj kvs) = True"
| "instanceof_Object (Fn r) = True"
| "instanceof_Object (Err m) = True"
| "instanceof_Object (Promise p) = True"
| "instanceof_Object _ = False"

text \<open>The enumerable keys of a value (\<open>Object.keys\<close>, \<open>for ... in\<close>).\<close>

fun js_keys :: "jsval \<Rightarrow> string list" where
  "js_keys (Obj kvs) = map fst kvs"
| "js_keys _ = []"

text \<open>
  The values \<open>o[k]\<close> met by \<open>for (k in o)\<close>: the members of an object, the characters
  of a string.
\<close>

fun for_in_values :: "jsval \<Rightarrow> jsval list" where
  "for_in_values (Obj kvs) = map (\<lambda>k. get_prop (Obj kvs) k) (map fst kvs)"
| "for_in_values (Str s) = map (\<lambda>c. Str [c]) s"
| "for_in_values _ = []"

text \<open>The inner loop: one \<open>InputValueDefinition\<close> node per member of \<open>directives.args\<close>.\<close>

fun directiveArgNodes :: "jsval list \<Rightarrow> jsval + jsval list" where
  "directiveArgNodes [] = Inr []"
| "directiveArgNodes (arg # rest) =
     (if arg = Undefined \<or> arg = Null then Inl TypeError
      else case directiveArgNodes rest of
             Inl e \<Rightarrow> Inl e
           | Inr ns \<Rightarrow>
               Inr (Obj [(''kind'', Str ''InputValueDefinition''),
                         (''description'', get_prop arg ''description''),
                         (''name'', get_prop arg ''name''),
                         (''type'', get_prop arg ''type''),
                         (''defaultValue'', get_prop arg ''defaultValue'')] # ns))"

text \<open>
  The outer loop over the directive names. The argument nodes are taken from
  \<open>directives.args\<close> (not from \<open>directives[directiveName]\<close>), anew for each name; reading
  \<open>directives[directiveName].description\<close> throws on \<open>null\<close> and \<open>undefined\<close>.
\<close>

fun directiveNodes :: "jsval \<Rightarrow> string list \<Rightarrow> jsval + dnode list" where
  "directiveNodes directives [] = Inr []"
| "directiveNodes directives (directiveName # rest) =
     (case directiveArgNodes (for_in_values (js_or (get_prop directives ''args'') (Obj []))) of
        Inl e \<Rightarrow> Inl e
      | Inr argNodes \<Rightarrow>
          (case member (get_prop directives directiveName) ''description'' of
             Inl e \<Rightarrow> Inl e
           | Inr description \<Rightarrow>
               (case directiveNodes directives rest of
                  Inl e \<Rightarrow> Inl e
                | Inr ns \<Rightarrow>
                    Inr (\<lparr>dn_kind = ''DirectiveDefinition'', dn_name = directiveName,
                          dn_arguments = argNodes\<rparr> # ns))))"

definition parseSchemaDirectives :: "jsval \<Rightarrow> jsval + dnode list" where
  "parseSchemaDirectives directives =
     (if \<not> truthy directives \<or> \<not> instanceof_Object directives
         \<or> length (js_keys directives) = 0
      then Inr []
      else directiveNodes directives (js_keys directives))"

section \<open>resolveMiddlewareWrapper\<close>

text \<open>
  What one run of a wrapped resolver does: its completion, the transform invocations it
  causes (tagged with the pipeline step, counted from 0, and with the path: the main
  chain, or the rejection handler attached with \<open>defer.catch\<close>), and the successive
  values of \<open>defer\<close>. The handlers run after the resolver has returned; the invocations
  are listed in the order in which the promise reactions run.
\<close>

datatype path = MainChain | RejectionHandler

record ('c, 'i) run =
  r_result :: completion
  r_calls :: "(nat \<times> path \<times> ('c, 'i) invocation) list"
  r_defers :: "jsval pstate list"

definition tag :: "nat \<Rightarrow> path \<Rightarrow> 'a list \<Rightarrow> (nat \<times> path \<times> 'a) list" where
  "tag step p invs = map (\<lambda>i. (step, p, i)) invs"

text \<open>
  \<open>defer.catch(e => resolveWithDirective(() => Promise.reject(e), source, directive,
  context, info))\<close>: the promise it creates is dropped; what remains is the invocation
  made when \<open>defer\<close> is rejected.
\<close>

definition catch_handler ::
  "('c, 'i) host \<Rightarrow> jsval pstate \<Rightarrow> jsval \<Rightarrow> dnode \<Rightarrow> 'c \<Rightarrow> 'i \<Rightarrow> ('c, 'i) invocation list" where
  "catch_handler h defer source directive context info =
     (case defer of
        Rejected e \<Rightarrow>
          snd (resolveWithDirective h (\<lambda>_. Inr (Promise (Rejected e))) source directive
                 context info)
      | _ \<Rightarrow> [])"

text \<open>
  \<open>defer.then(result => resolveWithDirective(() => Promise.resolve(result), source,
  directiveNext, context, info))\<close>: the callback runs only when \<open>defer\<close> is fulfilled; a
  throw in it rejects the new promise, a promise it returns is adopted.
\<close>

definition then_step ::
  "('c, 'i) host \<Rightarrow> jsval pstate \<Rightarrow> jsval \<Rightarrow> dnode \<Rightarrow> 'c \<Rightarrow> 'i
     \<Rightarrow> jsval pstate \<times> ('c, 'i) invocation list" where
  "then_step h defer source directiveNext context info =
     (case defer of
        Fulfilled result \<Rightarrow>
          (case resolveWithDirective h (\<lambda>_. Inr (Promise (promise_resolve result))) source
                  directiveNext context info of
             (Inl e, invs) \<Rightarrow> (Rejected e, invs)
           | (Inr p, invs) \<Rightarrow> (p, invs))
      | Rejected e \<Rightarrow> (Rejected e, [])
      | Pending \<Rightarrow> (Pending, []))"

text \<open>The loop \<open>for (let directiveNext of directives.slice(1))\<close>.\<close>

fun chain ::
  "('c, 'i) host \<Rightarrow> jsval \<Rightarrow> 'c \<Rightarrow> 'i \<Rightarrow> nat \<Rightarrow> jsval pstate \<Rightarrow> dnode list
     \<Rightarrow> jsval pstate \<times> (nat \<times> path \<times> ('c, 'i) invocation) list \<times> jsval pstate list" where
  "chain h source context info step defer [] = (defer, [], [])"
| "chain h source context info step defer (directiveNext # rest) =
     (case then_step h defer source directiveNext context info of
        (defer', invs) \<Rightarrow>
          (case chain h source context info (Suc step) defer' rest of
             (final, calls, defers) \<Rightarrow>
               (final,
                tag step MainChain invs
                  @ tag step RejectionHandler
                      (catch_handler h defer' source directiveNext context info)
                  @ calls,
                defer' # defers)))"

text \<open>
  The function returned by \<open>resolveMiddlewareWrapper(resolve, directives)\<close>, with
  \<open>serverDirectives\<close> already parsed. \<open>(info.fieldASTs || info.fieldNodes)[0]\<close> throws
  when both are absent and reading \<open>.directives\<close> of a missing first node throws.
\<close>

definition wrappedResolver ::
  "('c, 'i) host \<Rightarrow> (jsval \<Rightarrow> jsval \<Rightarrow> 'c \<Rightarrow> 'i \<Rightarrow> completion) \<Rightarrow> dnode list
     \<Rightarrow> jsval \<Rightarrow> jsval \<Rightarrow> 'c \<Rightarrow> 'i \<Rightarrow> ('c, 'i) run" where
  "wrappedResolver h resolve serverDirectives source args context info =
     (case (case fieldASTs h info of Some ns \<Rightarrow> Some ns | None \<Rightarrow> fieldNodes h info) of
        None \<Rightarrow> \<lparr>r_result = Inl TypeError, r_calls = [], r_defers = []\<rparr>
      | Some [] \<Rightarrow> \<lparr>r_result = Inl TypeError, r_calls = [], r_defers = []\<rparr>
      | Some (node0 # _) \<Rightarrow>
          (let directives = serverDirectives @ node0 in
           case filter (\<lambda>d. dn_name d \<notin> set DEFAULT_DIRECTIVES) directives of
             [] \<Rightarrow>
               \<lparr>r_result = resolve source args context info, r_calls = [], r_defers = []\<rparr>
           | directive # _ \<Rightarrow>
               (case resolveWithDirective h
                       (\<lambda>_. case resolve source args context info of
                               Inl e \<Rightarrow> Inl e
                             | Inr v \<Rightarrow> Inr (Promise (promise_resolve v)))
                       source directive context info of
                  (Inl e, invs) \<Rightarrow>
                    \<lparr>r_result = Inl e, r_calls = tag 0 MainChain invs, r_defers = []\<rparr>
                | (Inr defer, invs) \<Rightarrow>
                    (case (if length directives \<le> 1 then (defer, [], [])
                           else chain h source context info 1 defer (drop 1 directives)) of
                       (final, calls, defers) \<Rightarrow>
                         \<lparr>r_result = Inr (Promise final),
                          r_calls =
                            tag 0 MainChain invs
                              @ tag 0 RejectionHandler
                                  (catch_handler h defer source directive context info)
                              @ calls,
                          r_defers = defer # defers\<rparr>))))"

text \<open>
  A resolver slot of a field holds a function of the schema's author, or a function
  made by \<open>resolveMiddlewareWrapper\<close>: a closure over the resolver it wraps (the default
  one when the slot was empty) and over \<open>serverDirectives\<close>.
\<close>

datatype ('c, 'i) resolver =
    UserFn "jsval \<Rightarrow> jsval \<Rightarrow> 'c \<Rightarrow> 'i \<Rightarrow> completion"
  | DefaultFn
  | Middleware "('c, 'i) resolver" "dnode list"

fun call_resolver ::
  "('c, 'i) host \<Rightarrow> ('c, 'i) resolver \<Rightarrow> jsval \<Rightarrow> jsval \<Rightarrow> 'c \<Rightarrow> 'i \<Rightarrow> completion" where
  "call_resolver h (UserFn f) = f"
| "call_resolver h DefaultFn = defaultResolveFn h"
| "call_resolver h (Middleware resolve serverDirectives) =
     (\<lambda>source args context info.
        r_result (wrappedResolver h (call_resolver h resolve) serverDirectives
                    source args context info))"

text \<open>
  \<open>resolveMiddlewareWrapper(resolve = defaultResolveFn, directives = {})\<close>: the defaults
  replace \<open>undefined\<close>; parsing the static directives may throw.
\<close>

definition resolveMiddlewareWrapper ::
  "('c, 'i) resolver option \<Rightarrow> jsval \<Rightarrow> jsval + ('c, 'i) resolver" where
  "resolveMiddlewareWrapper resolve directives =
     (case parseSchemaDirectives (if directives = Undefined then Obj [] else directives) of
        Inl e \<Rightarrow> Inl e
      | Inr serverDirectives \<Rightarrow>
          Inr (Middleware (case resolve of None \<Rightarrow> DefaultFn | Some r \<Rightarrow> r)
                 serverDirectives))"

section \<open>The schema and wrapFieldsWithMiddleware\<close>

text \<open>
  The type of a field: a named type, or a list or non-null wrapper around a type
  (\<open>ofType\<close>). A wrapper has no \<open>name\<close> and no \<open>_fields\<close>.
\<close>

datatype gtype = Named string | ListOf gtype | NonNullOf gtype

record ('c, 'i) field =
  f_type :: gtype
  f_resolve :: "('c, 'i) resolver option"
  f_directives :: jsval

text \<open>
  The named types of a schema are objects that refer to each other, possibly in cycles;
  they are kept in a table from the type's name to its \<open>_fields\<close> map (absent for a
  type without fields: a scalar, an enum, a union). A field map lists the labels in
  enumeration order.
\<close>

type_synonym ('c, 'i) fieldmap = "(string \<times> ('c, 'i) field) list"

type_synonym ('c, 'i) types = "(string \<times> ('c, 'i) fieldmap option) list"

definition fields_of :: "('c, 'i) types \<Rightarrow> string \<Rightarrow> ('c, 'i) fieldmap option" where
  "fields_of ts n = (case map_of ts n of None \<Rightarrow> None | Some fs \<Rightarrow> fs)"

text \<open>\<open>String(t.name)\<close>, the key used in \<open>typeMet\<close>.\<close>

fun type_key :: "gtype \<Rightarrow> string" where
  "type_key (Named n) = n"
| "type_key _ = ''undefined''"

text \<open>
  \<open>typeMet\<close> is a plain object used as a set of keys, so the lookup \<open>typeMet[k]\<close> is
  truthy for a key that was set, and also for the members every plain object inherits.
\<close>

definition Object_prototype :: "string list" where
  "Object_prototype =
     [''constructor'', ''hasOwnProperty'', ''isPrototypeOf'', ''propertyIsEnumerable'',
      ''toLocaleString'', ''toString'', ''valueOf'', ''__proto__'', ''__defineGetter__'',
      ''__defineSetter__'', ''__lookupGetter__'', ''__lookupSetter__'']"

definition typeMet_get :: "string set \<Rightarrow> string \<Rightarrow> bool" where
  "typeMet_get typeMet k \<longleftrightarrow> k \<in> typeMet \<or> k \<in> set Object_prototype"

text \<open>\<open>t._fields\<close>\<close>

fun type_fields :: "('c, 'i) types \<Rightarrow> gtype \<Rightarrow> ('c, 'i) fieldmap option" where
  "type_fields ts (Named n) = fields_of ts n"
| "type_fields ts _ = None"

text \<open>\<open>t.ofType\<close>\<close>

fun ofType :: "gtype \<Rightarrow> gtype option" where
  "ofType (Named n) = None"
| "ofType (ListOf t) = Some t"
| "ofType (NonNullOf t) = Some t"

text \<open>\<open>while (child.ofType) child = child.ofType\<close>\<close>

fun unwrap :: "gtype \<Rightarrow> gtype" where
  "unwrap (Named n) = Named n"
| "unwrap (ListOf t) = unwrap t"
| "unwrap (NonNullOf t) = unwrap t"

text \<open>\<open>field.resolve = r\<close> on the field \<open>label\<close> of the type \<open>tname\<close>.\<close>

definition set_resolve ::
  "('c, 'i) types \<Rightarrow> string \<Rightarrow> string \<Rightarrow> ('c, 'i) resolver \<Rightarrow> ('c, 'i) types" where
  "set_resolve ts tname label r =
     map (\<lambda>(n, fs).
            if n = tname then
              (n, map_option
                    (map (\<lambda>(l, f). if l = label then (l, f\<lparr>f_resolve := Some r\<rparr>) else (l, f)))
                    fs)
            else (n, fs))
         ts"

text \<open>
  The call \<open>wrapFieldsWithMiddleware(child._fields)\<close>: the argument is the field map of
  \<open>child\<close>, not \<open>child\<close>. Its \<open>_fields\<close> member is the field labelled \<open>_fields\<close>, if
  there is one; without it the loop has nothing to enumerate, and the fresh \<open>typeMet\<close>
  is dropped. With it, the loop enumerates the members of that field definition (its
  type, its resolver, its name, ...) and reads \<open>.type.name\<close> of each truthy one; the
  field's type is truthy and has no \<open>type\<close> member, so the read throws.
\<close>

definition wrapFieldsWithMiddleware_fieldmap :: "('c, 'i) fieldmap \<Rightarrow> jsval option" where
  "wrapFieldsWithMiddleware_fieldmap fieldMap =
     (case map_of fieldMap ''_fields'' of None \<Rightarrow> None | Some f \<Rightarrow> Some TypeError)"

text \<open>
  \<open>wrapFieldsWithMiddleware(type, deepWrap, typeMet)\<close> on the type named \<open>tname\<close>, and its
  loop over the labels. The result is the thrown value, if any, the table of types
  after the mutations, and \<open>typeMet\<close> (one object shared by the nested calls). The first
  argument bounds the depth of the nested calls; \<open>None\<close> means that the bound was
  reached.
\<close>

fun wrapFieldsWithMiddleware ::
  "nat \<Rightarrow> ('c, 'i) types \<Rightarrow> string \<Rightarrow> bool \<Rightarrow> string set
     \<Rightarrow> (jsval option \<times> ('c, 'i) types \<times> string set) option"
and wrapFieldsLoop ::
  "nat \<Rightarrow> ('c, 'i) types \<Rightarrow> string \<Rightarrow> string list \<Rightarrow> bool \<Rightarrow> string set
     \<Rightarrow> (jsval option \<times> ('c, 'i) types \<times> string set) option" where
  "wrapFieldsWithMiddleware 0 ts tname deepWrap typeMet = None"
| "wrapFieldsWithMiddleware (Suc k) ts tname deepWrap typeMet =
     (case fields_of ts tname of
        None \<Rightarrow> Some (None, ts, insert tname typeMet)
      | Some fieldMap \<Rightarrow>
          wrapFieldsLoop k ts tname (map fst fieldMap) deepWrap (insert tname typeMet))"
| "wrapFieldsLoop k ts tname [] deepWrap typeMet = Some (None, ts, typeMet)"
| "wrapFieldsLoop k ts tname (label # labels) deepWrap typeMet =
     (case map_of (case fields_of ts tname of None \<Rightarrow> [] | Some fs \<Rightarrow> fs) label of
        None \<Rightarrow> wrapFieldsLoop k ts tname labels deepWrap typeMet
      | Some field \<Rightarrow>
          if typeMet_get typeMet (type_key (f_type field)) then
            wrapFieldsLoop k ts tname labels deepWrap typeMet
          else
            (case resolveMiddlewareWrapper (f_resolve field) (f_directives field) of
               Inl e \<Rightarrow> Some (Some e, ts, typeMet)
             | Inr r \<Rightarrow>
                 (let ts' = set_resolve ts tname label r in
                  if type_fields ts' (f_type field) \<noteq> None \<and> deepWrap then
                    (case wrapFieldsWithMiddleware k ts' (type_key (f_type field)) deepWrap
                            typeMet of
                       None \<Rightarrow> None
                     | Some (Some e, ts'', typeMet') \<Rightarrow> Some (Some e, ts'', typeMet')
                     | Some (None, ts'', typeMet') \<Rightarrow>
                         wrapFieldsLoop k ts'' tname labels deepWrap typeMet')
                  else if (case ofType (f_type field) of
                             None \<Rightarrow> False
                           | Some t \<Rightarrow> type_fields ts' t \<noteq> None) \<and> deepWrap then
                    (case type_fields ts' (unwrap (f_type field)) of
                       None \<Rightarrow> wrapFieldsLoop k ts' tname labels deepWrap typeMet
                     | Some childFields \<Rightarrow>
                         (case wrapFieldsWithMiddleware_fieldmap childFields of
                            Some e \<Rightarrow> Some (Some e, ts', typeMet)
                          | None \<Rightarrow> wrapFieldsLoop k ts' tname labels deepWrap typeMet))
                  else wrapFieldsLoop k ts' tname labels deepWrap typeMet)))"

section \<open>applySchemaCustomDirectives\<close>

record ('c, 'i) schema =
  queryType :: "string option"
  mutationType :: "string option"
  types :: "('c, 'i) types"

text \<open>The argument of the activation: a \<open>GraphQLSchema\<close> instance or any other value.\<close>

datatype ('c, 'i) activation_arg = GraphQLSchema "('c, 'i) schema" | NotASchema jsval

text \<open>A walk from a root: \<open>if (!type) return\<close>, and a fresh \<open>typeMet\<close> otherwise.\<close>

definition wrapRoot ::
  "nat \<Rightarrow> ('c, 'i) types \<Rightarrow> string option \<Rightarrow> bool
     \<Rightarrow> (jsval option \<times> ('c, 'i) types \<times> string set) option" where
  "wrapRoot k ts root deepWrap =
     (case root of
        None \<Rightarrow> Some (None, ts, {})
      | Some tname \<Rightarrow> wrapFieldsWithMiddleware k ts tname deepWrap {})"

text \<open>
  The result is the completion (a thrown value or \<open>true\<close>) and the argument after the
  call. The nesting of the walk is bounded by the number of named types.
\<close>

definition applySchemaCustomDirectives ::
  "('c, 'i) activation_arg \<Rightarrow> ((jsval + bool) \<times> ('c, 'i) activation_arg) option" where
  "applySchemaCustomDirectives a =
     (case a of
        NotASchema v \<Rightarrow> Some (Inl (Err ''Schema must be instanceof GraphQLSchema''), a)
      | GraphQLSchema s \<Rightarrow>
          (case wrapRoot (Suc (length (types s))) (types s) (queryType s) True of
             None \<Rightarrow> None
           | Some (Some e, ts, met) \<Rightarrow> Some (Inl e, GraphQLSchema (s\<lparr>types := ts\<rparr>))
           | Some (None, ts, met) \<Rightarrow>
               (case wrapRoot (Suc (length (types s))) ts (mutationType s) False of
                  None \<Rightarrow> None
                | Some (Some e, ts', met') \<Rightarrow> Some (Inl e, GraphQLSchema (s\<lparr>types := ts'\<rparr>))
                | Some (None, ts', met') \<Rightarrow>
                    Some (Inr True, GraphQLSchema (s\<lparr>types := ts'\<rparr>)))))"

section \<open>The directives and the host of the test suite\<close>

text \<open>
  \<open>next().then(f)\<close> inside a transform: calling \<open>next\<close> may throw; \<open>f\<close> runs when the
  promise is fulfilled.
\<close>

definition next_then :: "(unit \<Rightarrow> completion) \<Rightarrow> (jsval \<Rightarrow> completion) \<Rightarrow> jsval + jsval pstate" where
  "next_then next f =
     (case next () of
        Inl e \<Rightarrow> Inl e
      | Inr (Promise (Fulfilled v)) \<Rightarrow>
          Inr (case f v of Inl e \<Rightarrow> Rejected e | Inr r \<Rightarrow> promise_resolve r)
      | Inr (Promise p) \<Rightarrow> Inr p
      | Inr v \<Rightarrow> Inl TypeError)"

text \<open>
  An example directive named \<open>duplicate\<close>, after the one of the test suite used without
  arguments: it doubles a non-empty string result, with a space between the copies, and
  passes every other result on unchanged. (It is not the suite's transform, which also
  joins the string conversions of other truthy results.)
\<close>

definition duplicate_directive :: "('c, 'i) directive" where
  "duplicate_directive =
     \<lparr>d_name = ''duplicate'',
      d_resolve = Some (\<lambda>resolve source args context info.
        next_then resolve
          (\<lambda>result. Inr (case result of
                            Str s \<Rightarrow> if s = [] then result else Str (s @ '' '' @ s)
                          | v \<Rightarrow> v)))\<rparr>"

text \<open>\<open>resolve().then(() => { throw 'Test Error' })\<close>\<close>

definition GraphQLTestDirectiveThrows :: "('c, 'i) directive" where
  "GraphQLTestDirectiveThrows =
     \<lparr>d_name = ''throws'',
      d_resolve = Some (\<lambda>resolve source args context info.
        next_then resolve (\<lambda>result. Inl (Str ''Test Error'')))\<rparr>"

text \<open>
  \<open>resolve().then(result => result).catch(e => { errors.push(e) })\<close>: a rejection is
  turned into a promise fulfilled with \<open>undefined\<close>.
\<close>

definition GraphQLTestDirectiveCatch :: "('c, 'i) directive" where
  "GraphQLTestDirectiveCatch =
     \<lparr>d_name = ''catch'',
      d_resolve = Some (\<lambda>resolve source args context info.
        case next_then resolve (\<lambda>result. Inr result) of
          Inl e \<Rightarrow> Inl e
        | Inr (Rejected e) \<Rightarrow> Inr (Fulfilled Undefined)
        | Inr p \<Rightarrow> Inr p)\<rparr>"

text \<open>
  A host for the examples: the info object is the list of directives written on the
  field in the query; there are no variables; \<open>getDirectiveValues\<close> throws on a missing
  directive definition, as the library does, and finds no arguments otherwise. The
  examples never read a member of a source; the lookup given here finds the own members
  of a plain object.
\<close>

definition test_host :: "(unit, dnode list) directive list \<Rightarrow> (unit, dnode list) host" where
  "test_host ds =
     \<lparr>schema_directives = (\<lambda>info. ds),
      variableValues = (\<lambda>info. Undefined),
      fieldASTs = (\<lambda>info. None),
      fieldNodes = (\<lambda>info. Some [info]),
      fieldName = (\<lambda>info. ''value''),
      getDirectiveValues =
        (\<lambda>directiveDef node vars. case directiveDef of
                                     None \<Rightarrow> Inl TypeError
                                   | Some d \<Rightarrow> Inr (Obj [])),
      js_member = get_prop\<rparr>"

text \<open>A directive written in the query text, \<open>@name\<close>.\<close>

definition at :: "string \<Rightarrow> dnode" where
  "at n = \<lparr>dn_kind = ''Directive'', dn_name = n, dn_arguments = []\<rparr>"

definition test_directives :: "(unit, dnode list) directive list" where
  "test_directives = [duplicate_directive, GraphQLTestDirectiveThrows, GraphQLTestDirectiveCatch]"

text \<open>The resolver of the test field: it returns the string \<open>test\<close>.\<close>

definition test_resolve :: "jsval \<Rightarrow> jsval \<Rightarrow> unit \<Rightarrow> dnode list \<Rightarrow> completion" where
  "test_resolve source args context info = Inr (Str ''test'')"

section \<open>Example schemas\<close>

text \<open>A field without resolver and without static directives.\<close>

definition plain_field :: "gtype \<Rightarrow> (unit, dnode list) field" where
  "plain_field t = \<lparr>f_type = t, f_resolve = None, f_directives = Undefined\<rparr>"

text \<open>\<open>type Item { name: String }  type Query { items: [Item] }\<close>\<close>

definition list_schema :: "(unit, dnode list) schema" where
  "list_schema =
     \<lparr>queryType = Some ''Query'', mutationType = None,
      types =
        [(''Query'', Some [(''items'', plain_field (ListOf (Named ''Item'')))]),
         (''Item'', Some [(''name'', plain_field (Named ''String''))]),
         (''String'', None)]\<rparr>"

text \<open>\<open>type A { self: A, v: String }  type Query { a: A }\<close>\<close>

definition self_schema :: "(unit, dnode list) schema" where
  "self_schema =
     \<lparr>queryType = Some ''Query'', mutationType = None,
      types =
        [(''Query'', Some [(''a'', plain_field (Named ''A''))]),
         (''A'', Some [(''self'', plain_field (Named ''A'')), (''v'', plain_field (Named ''String''))]),
         (''String'', None)]\<rparr>"

text \<open>\<open>type Item { _fields: String }  type Query { items: [Item] }\<close>\<close>

definition fields_label_schema :: "(unit, dnode list) schema" where
  "fields_label_schema =
     \<lparr>queryType = Some ''Query'', mutationType = None,
      types =
        [(''Query'', Some [(''items'', plain_field (ListOf (Named ''Item'')))]),
         (''Item'', Some [(''_fields'', plain_field (Named ''String''))]),
         (''String'', None)]\<rparr>"

text \<open>
  \<open>type Query { value: String }\<close>, the field \<open>value\<close> configured with
  \<open>directives: { args: { by: null } }\<close>: a directive named \<open>args\<close> with the argument
  \<open>by\<close>.
\<close>

definition args_directive_schema :: "(unit, dnode list) schema" where
  "args_directive_schema =
     \<lparr>queryType = Some ''Query'', mutationType = None,
      types =
        [(''Query'',
          Some [(''value'',
                 \<lparr>f_type = Named ''String'', f_resolve = None,
                  f_directives = Obj [(''args'', Obj [(''by'', Null)])]\<rparr>)]),
         (''String'', None)]\<rparr>"

text \<open>
  \<open>type User { n: String }  type Query { u: User }  type Mutation { m: User }\<close>
\<close>

definition shared_type_schema :: "(unit, dnode list) schema" where
  "shared_type_schema =
     \<lparr>queryType = Some ''Query'', mutationType = Some ''Mutation'',
      types =
        [(''Query'', Some [(''u'', plain_field (Named ''User''))]),
         (''Mutation'', Some [(''m'', plain_field (Named ''User''))]),
         (''User'', Some [(''n'', plain_field (Named ''String''))]),
         (''String'', None)]\<rparr>"

section \<open>Reading a schema\<close>

text \<open>The field map of a named type (empty when the type has none).\<close>

definition own_fields :: "('c, 'i) types \<Rightarrow> string \<Rightarrow> ('c, 'i) fieldmap" where
  "own_fields ts tname = (case fields_of ts tname of None \<Rightarrow> [] | Some fs \<Rightarrow> fs)"

text \<open>The resolver slot of a field.\<close>

definition field_resolver ::
  "('c, 'i) types \<Rightarrow> string \<Rightarrow> string \<Rightarrow> ('c, 'i) resolver option" where
  "field_resolver ts tname label =
     (case map_of (own_fields ts tname) label of None \<Rightarrow> None | Some f \<Rightarrow> f_resolve f)"

text \<open>How many times a resolver slot has been wrapped by \<open>resolveMiddlewareWrapper\<close>.\<close>

fun wrap_depth :: "('c, 'i) resolver \<Rightarrow> nat" where
  "wrap_depth (Middleware r serverDirectives) = Suc (wrap_depth r)"
| "wrap_depth _ = 0"

definition wrap_count :: "('c, 'i) resolver option \<Rightarrow> nat" where
  "wrap_count slot = (case slot of None \<Rightarrow> 0 | Some r \<Rightarrow> wrap_depth r)"

text \<open>The completion of an activation, and the types of the schema after it.\<close>

definition completion_of ::
  "((jsval + bool) \<times> ('c, 'i) activation_arg) option \<Rightarrow> (jsval + bool) option" where
  "completion_of r = map_option fst r"

definition types_after ::
  "((jsval + bool) \<times> ('c, 'i) activation_arg) option \<Rightarrow> ('c, 'i) types" where
  "types_after r =
     (case r of
        Some (c, GraphQLSchema s) \<Rightarrow> types s
      | _ \<Rightarrow> [])"

text \<open>Two tables in which every type has the same field labels, in the same order.\<close>

definition same_labels :: "('c, 'i) types \<Rightarrow> ('c, 'i) types \<Rightarrow> bool" where
  "same_labels ts' ts \<longleftrightarrow> (\<forall>n. map fst (own_fields ts' n) = map fst (own_fields ts n))"

text \<open>
  A walk that returns, keeping the named types of the table, their field labels and the
  keys already in \<open>typeMet\<close>.
\<close>

definition walk_ok ::
  "(jsval option \<times> ('c, 'i) types \<times> string set) option \<Rightarrow> ('c, 'i) types \<Rightarrow> string set \<Rightarrow> bool" where
  "walk_ok r ts met \<longleftrightarrow>
     (\<exists>e ts' met'. r = Some (e, ts', met') \<and> map fst ts' = map fst ts \<and> same_labels ts' ts
        \<and> met \<subseteq> met')"

text \<open>The table of types after the walk of the query root.\<close>

definition after_query_walk :: "('c, 'i) schema \<Rightarrow> ('c, 'i) types" where
  "after_query_walk s =
     (case wrapRoot (Suc (length (types s))) (types s) (queryType s) True of
        None \<Rightarrow> types s
      | Some (e, ts, met) \<Rightarrow> ts)"

text \<open>
  \<open>type User { n: String }  type constructor { x: String }  type Query { u: User }
  type Mutation { m: User, again: Mutation, made: constructor }\<close>
\<close>

definition mutation_schema :: "(unit, dnode list) schema" where
  "mutation_schema =
     \<lparr>queryType = Some ''Query'', mutationType = Some ''Mutation'',
      types =
        [(''Query'', Some [(''u'', plain_field (Named ''User''))]),
         (''Mutation'',
          Some [(''m'', plain_field (Named ''User'')),
                (''again'', plain_field (Named ''Mutation'')),
                (''made'', plain_field (Named ''constructor''))]),
         (''User'', Some [(''n'', plain_field (Named ''String''))]),
         (''constructor'', Some [(''x'', plain_field (Named ''String''))]),
         (''String'', None)]\<rparr>"

section \<open>Reading a run\<close>

text \<open>The invocations of a run made at a given step on a given path.\<close>

definition calls_at :: "nat \<Rightarrow> path \<Rightarrow> (nat \<times> path \<times> 'a) list \<Rightarrow> 'a list" where
  "calls_at n p cs = map (snd \<circ> snd) (filter (\<lambda>c. fst c = n \<and> fst (snd c) = p) cs)"

text \<open>
  The directives attached to the field, static ones first (the list \<open>directives\<close> of the
  wrapped resolver), and the directives of the steps the wrapped resolver builds: the
  first attached directive that is not built in, then all attached directives but the
  first.
\<close>

definition attached_directives :: "('c, 'i) host \<Rightarrow> dnode list \<Rightarrow> 'i \<Rightarrow> dnode list" where
  "attached_directives h serverDirectives info =
     (case (case fieldASTs h info of Some ns \<Rightarrow> Some ns | None \<Rightarrow> fieldNodes h info) of
        Some (node0 # _) \<Rightarrow> serverDirectives @ node0
      | _ \<Rightarrow> [])"

definition step_directives :: "('c, 'i) host \<Rightarrow> dnode list \<Rightarrow> 'i \<Rightarrow> dnode list" where
  "step_directives h serverDirectives info =
     (case filter (\<lambda>d. dn_name d \<notin> set DEFAULT_DIRECTIVES)
             (attached_directives h serverDirectives info) of
        [] \<Rightarrow> []
      | directive # _ \<Rightarrow> directive # drop 1 (attached_directives h serverDirectives info))"

text \<open>
  Whether a call of \<open>resolveWithDirective\<close> for a directive node gets as far as the
  transform: a directive of that name is registered, the first such one has a \<open>resolve\<close>
  member, and \<open>getDirectiveValues\<close> returns.
\<close>

definition reaches_transform :: "('c, 'i) host \<Rightarrow> dnode \<Rightarrow> 'i \<Rightarrow> bool" where
  "reaches_transform h d info =
     (case filter (\<lambda>c. dn_name d = d_name c) (schema_directives h info) of
        [] \<Rightarrow> False
      | cfg # _ \<Rightarrow>
          (case d_resolve cfg of
             None \<Rightarrow> False
           | Some t \<Rightarrow>
               (case getDirectiveValues h (Some cfg) d (variableValues h info) of
                  Inl e \<Rightarrow> False
                | Inr a \<Rightarrow> True)))"

definition fulfilled :: "'a pstate \<Rightarrow> bool" where
  "fulfilled p = (case p of Fulfilled v \<Rightarrow> True | _ \<Rightarrow> False)"

text \<open>
  The example host on a selection merged from two field nodes: the first node carries no
  directive, the second one the directives of the info object.
\<close>

definition merged_selection_host ::
  "(unit, dnode list) directive list \<Rightarrow> (unit, dnode list) host" where
  "merged_selection_host ds = (test_host ds)\<lparr>fieldNodes := (\<lambda>info. Some [[], info])\<rparr>"

section \<open>Properties of the wrapped resolver\<close>

lemma then_step_Rejected: "then_step h (Rejected e) source d context info = (Rejected e, [])"
  by (simp add: then_step_def)

lemma chain_fst_Cons:
  "fst (chain h source context info step defer (d # ds)) =
     fst (chain h source context info (Suc step)
            (fst (then_step h defer source d context info)) ds)"
  by (simp split: prod.splits)

lemma chain_defers_Cons:
  "snd (snd (chain h source context info step defer (d # ds))) =
     fst (then_step h defer source d context info)
       # snd (snd (chain h source context info (Suc step)
                     (fst (then_step h defer source d context info)) ds))"
  by (simp split: prod.splits)

lemma chain_calls_Cons:
  "fst (snd (chain h source context info step defer (d # ds))) =
     tag step MainChain (snd (then_step h defer source d context info))
       @ tag step RejectionHandler
           (catch_handler h (fst (then_step h defer source d context info)) source d
              context info)
       @ fst (snd (chain h source context info (Suc step)
                     (fst (then_step h defer source d context info)) ds))"
  by (simp split: prod.splits)

lemma chain_rejected_stays:
  "fst (chain h source context info step (Rejected e) ds) = Rejected e
   \<and> set (snd (snd (chain h source context info step (Rejected e) ds))) \<subseteq> {Rejected e}"
proof (induction ds arbitrary: step)
  case Nil
  show ?case by simp
next
  case (Cons d ds)
  show ?case
    unfolding chain_fst_Cons chain_defers_Cons then_step_Rejected
    using Cons.IH [of "Suc step"] by simp
qed

lemma chain_rejection_final:
  "Rejected e \<in> set (p # snd (snd (chain h source context info step p ds)))
   \<Longrightarrow> fst (chain h source context info step p ds) = Rejected e"
proof (induction ds arbitrary: step p)
  case Nil
  then show ?case by simp
next
  case (Cons d ds)
  show ?case
  proof (cases "p = Rejected e")
    case True
    then show ?thesis using chain_rejected_stays by metis
  next
    case False
    with Cons.prems
    have "Rejected e \<in> set (fst (then_step h p source d context info)
             # snd (snd (chain h source context info (Suc step)
                     (fst (then_step h p source d context info)) ds)))"
      unfolding chain_defers_Cons by simp
    from Cons.IH [OF this] show ?thesis unfolding chain_fst_Cons .
  qed
qed


lemma if_chain:
  "(if length ds \<le> 1 then (p, [], []) else chain h source context info step p (drop 1 ds))
     = chain h source context info step p (drop 1 ds)"
  by (cases ds; cases "tl ds") auto

lemma wrappedResolver_pipeline:
  assumes "(case fieldASTs h info of Some ns \<Rightarrow> Some ns | None \<Rightarrow> fieldNodes h info) = Some (node0 # nodes)"
    and "filter (\<lambda>d. dn_name d \<notin> set DEFAULT_DIRECTIVES) (serverDirectives @ node0) = directive # others"
    and "resolveWithDirective h
           (\<lambda>_. case resolve source args context info of
                   Inl e \<Rightarrow> Inl e
                 | Inr v \<Rightarrow> Inr (Promise (promise_resolve v)))
           source directive context info = (Inr p0, invs)"
  shows "wrappedResolver h resolve serverDirectives source args context info =
           \<lparr>r_result = Inr (Promise (fst (chain h source context info 1 p0 (drop 1 (serverDirectives @ node0))))),
            r_calls = tag 0 MainChain invs
                        @ tag 0 RejectionHandler (catch_handler h p0 source directive context info)
                        @ fst (snd (chain h source context info 1 p0 (drop 1 (serverDirectives @ node0)))),
            r_defers = p0 # snd (snd (chain h source context info 1 p0 (drop 1 (serverDirectives @ node0))))\<rparr>"
  unfolding wrappedResolver_def Let_def assms(1) option.case list.case assms(2) assms(3) prod.case sum.case if_chain
  by (simp split: prod.splits)

lemma wrappedResolver_defers_cases:
  "r_defers (wrappedResolver h resolve serverDirectives source args context info) = []
   \<or> (\<exists>node0 nodes directive others p0 invs.
        (case fieldASTs h info of Some ns \<Rightarrow> Some ns | None \<Rightarrow> fieldNodes h info) = Some (node0 # nodes)
      \<and> filter (\<lambda>d. dn_name d \<notin> set DEFAULT_DIRECTIVES) (serverDirectives @ node0) = directive # others
      \<and> resolveWithDirective h
           (\<lambda>_. case resolve source args context info of
                   Inl e \<Rightarrow> Inl e
                 | Inr v \<Rightarrow> Inr (Promise (promise_resolve v)))
           source directive context info = (Inr p0, invs))"
  unfolding wrappedResolver_def Let_def
  by (auto split: option.splits list.splits prod.splits sum.splits)

text \<open>
  Claim C6: if the promise of any step of a field's pipeline is rejected, the promise
  returned by the wrapped resolver is rejected with the same reason. The later steps run
  only when their predecessor is fulfilled, so nothing in the chain can turn the rejection
  into a value; what a transform catches inside its own step never shows as a rejected
  step.
\<close>

theorem rejection_propagates:
  assumes "Rejected e \<in> set (r_defers (wrappedResolver h resolve serverDirectives source args context info))"
  shows "r_result (wrappedResolver h resolve serverDirectives source args context info)
           = Inr (Promise (Rejected e))"
proof -
  from assms wrappedResolver_defers_cases [of h resolve serverDirectives source args "context" info]
  obtain node0 nodes directive others p0 invs where
    a: "(case fieldASTs h info of Some ns \<Rightarrow> Some ns | None \<Rightarrow> fieldNodes h info) = Some (node0 # nodes)"
    and b: "filter (\<lambda>d. dn_name d \<notin> set DEFAULT_DIRECTIVES) (serverDirectives @ node0) = directive # others"
    and c: "resolveWithDirective h
           (\<lambda>_. case resolve source args context info of
                   Inl e \<Rightarrow> Inl e
                 | Inr v \<Rightarrow> Inr (Promise (promise_resolve v)))
           source directive context info = (Inr p0, invs)"
    by fastforce
  note w = wrappedResolver_pipeline [where resolve = resolve and source = source and args = args, OF a b c]
  from assms have "Rejected e \<in> set (p0 # snd (snd (chain h source context info 1 p0 (drop 1 (serverDirectives @ node0)))))"
    unfolding w by simp
  from chain_rejection_final [OF this] show ?thesis unfolding w by simp
qed

lemmas eval_defs = test_directives_def test_resolve_def test_host_def wrappedResolver_def
  resolveWithDirective_def at_def DEFAULT_DIRECTIVES_def
  duplicate_directive_def GraphQLTestDirectiveThrows_def GraphQLTestDirectiveCatch_def next_then_def
  then_step_def catch_handler_def tag_def js_or_def TypeError_def Let_def source_or_input_def

theorem rejection_propagates_witness:
  "Rejected (Str ''Test Error'')
     \<in> set (r_defers (wrappedResolver (test_host test_directives) test_resolve [] Undefined Undefined ()
                 [at ''duplicate'', at ''throws'', at ''catch'']))
   \<and> r_result (wrappedResolver (test_host test_directives) test_resolve [] Undefined Undefined ()
                 [at ''duplicate'', at ''throws'', at ''catch''])
       = Inr (Promise (Rejected (Str ''Test Error'')))"
proof -
  have r: "Rejected (Str ''Test Error'')
     \<in> set (r_defers (wrappedResolver (test_host test_directives) test_resolve [] Undefined Undefined ()
                 [at ''duplicate'', at ''throws'', at ''catch'']))"
    by (simp add: eval_defs)
  from rejection_propagates [OF r] r show ?thesis by simp
qed

text \<open>
  Claim C3: for a field without static directive configuration whose selection carries
  no directive other than \<open>skip\<close> and \<open>include\<close>, the wrapped resolver returns exactly
  what the original resolver (the default one when the field had none) returns for the
  same source, args, context and info, and no transform is invoked.
\<close>

theorem no_directive_original_resolver:
  assumes "(case fieldASTs h info of Some ns \<Rightarrow> Some ns | None \<Rightarrow> fieldNodes h info) = Some (node0 # nodes)"
    and "\<forall>d \<in> set node0. dn_name d \<in> set DEFAULT_DIRECTIVES"
    and "directives = Undefined \<or> directives = Obj []"
  shows "resolveMiddlewareWrapper resolve directives
           = Inr (Middleware (case resolve of None \<Rightarrow> DefaultFn | Some r \<Rightarrow> r) [])
       \<and> call_resolver h (Middleware (case resolve of None \<Rightarrow> DefaultFn | Some r \<Rightarrow> r) [])
             source args context info
           = call_resolver h (case resolve of None \<Rightarrow> DefaultFn | Some r \<Rightarrow> r)
               source args context info
       \<and> r_calls (wrappedResolver h (call_resolver h (case resolve of None \<Rightarrow> DefaultFn | Some r \<Rightarrow> r))
                    [] source args context info) = []"
proof -
  from assms(2) have f: "filter (\<lambda>d. dn_name d \<notin> set DEFAULT_DIRECTIVES) ([] @ node0) = []"
    by (simp add: filter_empty_conv)
  have w: "wrappedResolver h r [] source args context info
             = \<lparr>r_result = r source args context info, r_calls = [], r_defers = []\<rparr>" for r
    unfolding wrappedResolver_def Let_def assms(1) option.case list.case f ..
  from assms(3) have p: "parseSchemaDirectives (if directives = Undefined then Obj [] else directives) = Inr []"
    by (auto simp: parseSchemaDirectives_def)
  show ?thesis
    unfolding resolveMiddlewareWrapper_def p by (simp add: w)
qed

theorem no_directive_original_resolver_witness:
  "resolveMiddlewareWrapper (Some (UserFn test_resolve)) Undefined = Inr (Middleware (UserFn test_resolve) [])
   \<and> call_resolver (test_host test_directives) (Middleware (UserFn test_resolve) [])
        Undefined Undefined () [at ''skip'', at ''include''] = Inr (Str ''test'')"
  using no_directive_original_resolver [of "test_host test_directives" "[at ''skip'', at ''include'']"
      "[at ''skip'', at ''include'']" "[]" Undefined "Some (UserFn test_resolve)" Undefined Undefined "()"]
  by (simp add: test_host_def at_def DEFAULT_DIRECTIVES_def test_resolve_def)


lemma resolveWithDirective_passes:
  "iv \<in> set (snd (resolveWithDirective h nxt source d context info))
   \<Longrightarrow> i_context iv = context \<and> i_info iv = info
       \<and> i_source iv = source_or_input h source info"
  unfolding resolveWithDirective_def Let_def
  by (auto split: sum.splits option.splits)

lemma catch_handler_passes:
  "iv \<in> set (catch_handler h p source d context info)
   \<Longrightarrow> i_context iv = context \<and> i_info iv = info
       \<and> i_source iv = source_or_input h source info"
  unfolding catch_handler_def
  by (cases p) (auto dest: resolveWithDirective_passes)

lemma then_step_snd:
  "snd (then_step h p source d context info) =
     (case p of
        Fulfilled result \<Rightarrow>
          snd (resolveWithDirective h (\<lambda>_. Inr (Promise (promise_resolve result))) source d
                 context info)
      | _ \<Rightarrow> [])"
  unfolding then_step_def by (cases p) (auto split: prod.splits sum.splits)

lemma then_step_passes:
  "iv \<in> set (snd (then_step h p source d context info))
   \<Longrightarrow> i_context iv = context \<and> i_info iv = info
       \<and> i_source iv = source_or_input h source info"
  unfolding then_step_snd
  by (cases p) (auto dest: resolveWithDirective_passes)

lemma chain_passes:
  "c \<in> set (fst (snd (chain h source context info step p ds)))
   \<Longrightarrow> i_context (snd (snd c)) = context \<and> i_info (snd (snd c)) = info
       \<and> i_source (snd (snd c)) = source_or_input h source info"
proof (induction ds arbitrary: step p)
  case Nil
  then show ?case by simp
next
  case (Cons d ds)
  from Cons.prems show ?case
    unfolding chain_calls_Cons
    by (auto simp: tag_def dest: then_step_passes catch_handler_passes Cons.IH)
qed

lemma wrappedResolver_calls_cases:
  "r_calls (wrappedResolver h resolve serverDirectives source args context info) = []
   \<or> (\<exists>directive e invs. 
        resolveWithDirective h
           (\<lambda>_. case resolve source args context info of
                   Inl e \<Rightarrow> Inl e
                 | Inr v \<Rightarrow> Inr (Promise (promise_resolve v)))
           source directive context info = (Inl e, invs)
        \<and> r_calls (wrappedResolver h resolve serverDirectives source args context info) = tag 0 MainChain invs)
   \<or> (\<exists>node0 nodes directive others p0 invs.
        (case fieldASTs h info of Some ns \<Rightarrow> Some ns | None \<Rightarrow> fieldNodes h info) = Some (node0 # nodes)
      \<and> filter (\<lambda>d. dn_name d \<notin> set DEFAULT_DIRECTIVES) (serverDirectives @ node0) = directive # others
      \<and> resolveWithDirective h
           (\<lambda>_. case resolve source args context info of
                   Inl e \<Rightarrow> Inl e
                 | Inr v \<Rightarrow> Inr (Promise (promise_resolve v)))
           source directive context info = (Inr p0, invs))"
  unfolding wrappedResolver_def Let_def
  by (auto split: option.splits list.splits prod.splits sum.splits)

text \<open>
  Claim C5, as amended: every transform invoked by the wrapped resolver receives the
  context and the info object of the wrapped resolver unchanged; it receives the wrapped
  resolver's source when that source is truthy, and otherwise
  \<open>info.variableValues.input_0\<close>, \<open>info.variableValues.input\<close> or an empty object
  (the first truthy one).
\<close>

theorem transform_receives_context_info_and_source_or_input:
  "\<forall>c \<in> set (r_calls (wrappedResolver h resolve serverDirectives source args context info)).
     i_context (snd (snd c)) = context
   \<and> i_info (snd (snd c)) = info
   \<and> i_source (snd (snd c)) = source_or_input h source info
   \<and> (truthy source \<longrightarrow> i_source (snd (snd c)) = source)"
proof
  fix c
  assume c: "c \<in> set (r_calls (wrappedResolver h resolve serverDirectives source args context info))"
  have t: "truthy source \<longrightarrow> source_or_input h source info = source"
    by (simp add: source_or_input_def js_or_def)
  from wrappedResolver_calls_cases [of h resolve serverDirectives source args "context" info]
  consider (empty) "r_calls (wrappedResolver h resolve serverDirectives source args context info) = []"
    | (thrown) directive e invs where
        "resolveWithDirective h
           (\<lambda>_. case resolve source args context info of
                   Inl e \<Rightarrow> Inl e
                 | Inr v \<Rightarrow> Inr (Promise (promise_resolve v)))
           source directive context info = (Inl e, invs)"
        "r_calls (wrappedResolver h resolve serverDirectives source args context info) = tag 0 MainChain invs"
    | (pipeline) node0 nodes directive others p0 invs where
        "(case fieldASTs h info of Some ns \<Rightarrow> Some ns | None \<Rightarrow> fieldNodes h info) = Some (node0 # nodes)"
        "filter (\<lambda>d. dn_name d \<notin> set DEFAULT_DIRECTIVES) (serverDirectives @ node0) = directive # others"
        "resolveWithDirective h
           (\<lambda>_. case resolve source args context info of
                   Inl e \<Rightarrow> Inl e
                 | Inr v \<Rightarrow> Inr (Promise (promise_resolve v)))
           source directive context info = (Inr p0, invs)"
    by blast
  then have "i_context (snd (snd c)) = context \<and> i_info (snd (snd c)) = info
       \<and> i_source (snd (snd c)) = source_or_input h source info"
  proof cases
    case empty
    with c show ?thesis by simp
  next
    case thrown
    from c have "snd (snd c) \<in> set invs" unfolding thrown(2) tag_def by auto
    then have "snd (snd c) \<in> set (snd (resolveWithDirective h
           (\<lambda>_. case resolve source args context info of
                   Inl e \<Rightarrow> Inl e
                 | Inr v \<Rightarrow> Inr (Promise (promise_resolve v)))
           source directive context info))" unfolding thrown(1) by simp
    then show ?thesis by (rule resolveWithDirective_passes)
  next
    case pipeline
    note w = wrappedResolver_pipeline [where resolve = resolve and source = source and args = args,
        OF pipeline]
    from c consider "snd (snd c) \<in> set invs"
      | "snd (snd c) \<in> set (catch_handler h p0 source directive context info)"
      | "c \<in> set (fst (snd (chain h source context info 1 p0 (drop 1 (serverDirectives @ node0)))))"
      unfolding w tag_def by auto
    then show ?thesis
    proof cases
      case 1
      then have "snd (snd c) \<in> set (snd (resolveWithDirective h
           (\<lambda>_. case resolve source args context info of
                   Inl e \<Rightarrow> Inl e
                 | Inr v \<Rightarrow> Inr (Promise (promise_resolve v)))
           source directive context info))" unfolding pipeline(3) by simp
      then show ?thesis by (rule resolveWithDirective_passes)
    next
      case 2
      then show ?thesis by (rule catch_handler_passes)
    next
      case 3
      then show ?thesis by (rule chain_passes)
    qed
  qed
  with t show "i_context (snd (snd c)) = context
   \<and> i_info (snd (snd c)) = info
   \<and> i_source (snd (snd c)) = source_or_input h source info
   \<and> (truthy source \<longrightarrow> i_source (snd (snd c)) = source)" by simp
qed

text \<open>
  Claim C5, as stated, fails for a falsy source: a root field resolved with the source
  \<open>undefined\<close> hands an empty object to the transform.
\<close>

theorem transform_source_counterexample:
  "map (i_source \<circ> snd \<circ> snd)
     (r_calls (wrappedResolver (test_host test_directives) test_resolve [] Undefined Undefined ()
                 [at ''duplicate''])) = [Obj []]"
  by (simp add: eval_defs)

theorem transform_receives_context_info_and_source_or_input_witness:
  "truthy (Str ''root'')
   \<and> map (i_source \<circ> snd \<circ> snd)
       (r_calls (wrappedResolver (test_host test_directives) test_resolve [] (Str ''root'')
                   Undefined () [at ''duplicate''])) = [Str ''root'']"
  using transform_receives_context_info_and_source_or_input
          [of "test_host test_directives" test_resolve "[]" "Str ''root''" Undefined "()"
              "[at ''duplicate'']"]
  by (simp add: eval_defs)

lemma resolveWithDirective_unregistered:
  assumes "dn_name d \<notin> d_name ` set (schema_directives h info)"
  shows "\<exists>e. resolveWithDirective h nxt source d context info = (Inl e, [])"
proof -
  from assms have "filter (\<lambda>c. dn_name d = d_name c) (schema_directives h info) = []"
    by (auto simp: filter_empty_conv)
  then show ?thesis
    unfolding resolveWithDirective_def Let_def
    by (simp split: sum.splits)
qed

lemma chain_not_fulfilled_stays:
  "\<forall>v. p \<noteq> Fulfilled v \<Longrightarrow> \<forall>v. fst (chain h source context info step p ds) \<noteq> Fulfilled v"
proof (induction ds arbitrary: step p)
  case Nil
  then show ?case by simp
next
  case (Cons d ds)
  from Cons.prems have "\<forall>v. fst (then_step h p source d context info) \<noteq> Fulfilled v"
    unfolding then_step_def by (cases p) auto
  from Cons.IH [OF this] show ?case unfolding chain_fst_Cons .
qed

lemma chain_unregistered_not_fulfilled:
  assumes "dn_name d \<notin> d_name ` set (schema_directives h info)"
  shows "d \<in> set ds \<Longrightarrow> \<forall>v. fst (chain h source context info step p ds) \<noteq> Fulfilled v"
proof (induction ds arbitrary: step p)
  case Nil
  then show ?case by simp
next
  case (Cons x ds)
  show ?case
  proof (cases "x = d")
    case True
    have "\<forall>v. fst (then_step h p source d context info) \<noteq> Fulfilled v"
    proof (cases p)
      case (Fulfilled r)
      from resolveWithDirective_unregistered [OF assms]
      obtain e where "resolveWithDirective h (\<lambda>_. Inr (Promise (promise_resolve r))) source d context info = (Inl e, [])"
        by blast
      then show ?thesis unfolding then_step_def Fulfilled by simp
    qed (simp_all add: then_step_def)
    from chain_not_fulfilled_stays [OF this] show ?thesis unfolding chain_fst_Cons True .
  next
    case False
    with Cons.prems have "d \<in> set ds" by simp
    from Cons.IH [OF this] show ?thesis unfolding chain_fst_Cons .
  qed
qed

lemma not_fulfilled_cases:
  "\<forall>v. p \<noteq> Fulfilled v \<Longrightarrow> (\<exists>e. p = Rejected e) \<or> p = Pending"
  by (cases p) auto

lemma unregistered_directive_outcome:
  assumes nodes: "(case fieldASTs h info of Some ns \<Rightarrow> Some ns | None \<Rightarrow> fieldNodes h info) = Some (node0 # nodes)"
    and attached: "d \<in> set (serverDirectives @ node0)"
    and custom: "dn_name d \<notin> set DEFAULT_DIRECTIVES"
    and unregistered: "dn_name d \<notin> d_name ` set (schema_directives h info)"
  shows "(\<forall>nxt. \<exists>e. resolveWithDirective h nxt source d context info = (Inl e, []))
     \<and> ((\<exists>e. r_result (wrappedResolver h resolve serverDirectives source args context info) = Inl e)
        \<or> (\<exists>e. r_result (wrappedResolver h resolve serverDirectives source args context info)
                  = Inr (Promise (Rejected e)))
        \<or> r_result (wrappedResolver h resolve serverDirectives source args context info)
             = Inr (Promise Pending))
     \<and> (hd (filter (\<lambda>d. dn_name d \<notin> set DEFAULT_DIRECTIVES) (serverDirectives @ node0)) = d
          \<longrightarrow> (\<exists>e. r_result (wrappedResolver h resolve serverDirectives source args context info) = Inl e))"
proof -
  let ?R = "wrappedResolver h resolve serverDirectives source args context info"
  let ?next = "\<lambda>_::unit. case resolve source args context info of
                   Inl e \<Rightarrow> Inl e
                 | Inr v \<Rightarrow> Inr (Promise (promise_resolve v))"
  have a: "\<forall>nxt. \<exists>e. resolveWithDirective h nxt source d context info = (Inl e, [])"
    using resolveWithDirective_unregistered [OF unregistered] by blast
  from attached custom
  obtain directive others where
    f: "filter (\<lambda>d. dn_name d \<notin> set DEFAULT_DIRECTIVES) (serverDirectives @ node0) = directive # others"
    by (cases "filter (\<lambda>d. dn_name d \<notin> set DEFAULT_DIRECTIVES) (serverDirectives @ node0)")
       (auto simp: filter_empty_conv)
  have thrown: "\<exists>e. r_result ?R = Inl e"
    if "resolveWithDirective h ?next source directive context info = (Inl e0, invs)" for e0 invs
    unfolding wrappedResolver_def Let_def nodes option.case list.case f that by simp
  have first: "\<exists>e. r_result ?R = Inl e" if "directive = d"
  proof -
    from a obtain e0 where "resolveWithDirective h ?next source d context info = (Inl e0, [])"
      by blast
    with that thrown show ?thesis by blast
  qed
  have b: "(\<exists>e. r_result ?R = Inl e) \<or> (\<exists>e. r_result ?R = Inr (Promise (Rejected e)))
        \<or> r_result ?R = Inr (Promise Pending)"
  proof (cases "directive = d")
    case True
    with first show ?thesis by blast
  next
    case False
    obtain c0 invs where r: "resolveWithDirective h ?next source directive context info = (c0, invs)"
      by (cases "resolveWithDirective h ?next source directive context info")
    show ?thesis
    proof (cases c0)
      case (Inl e0)
      with r thrown show ?thesis by blast
    next
      case (Inr p0)
      note w = wrappedResolver_pipeline [where resolve = resolve and source = source and args = args,
        OF nodes f r [unfolded Inr]]
      have "d \<in> set (drop 1 (serverDirectives @ node0))"
      proof (cases "serverDirectives @ node0")
        case Nil
        with attached show ?thesis by simp
      next
        case (Cons x xs)
        show ?thesis
        proof (cases "x = d")
          case True
          with Cons custom f have "directive = d" by simp
          with False show ?thesis by simp
        next
          case False
          with attached Cons show ?thesis by simp
        qed
      qed
      from chain_unregistered_not_fulfilled [OF unregistered this]
      have "\<forall>v. fst (chain h source context info 1 p0 (drop 1 (serverDirectives @ node0))) \<noteq> Fulfilled v" .
      from not_fulfilled_cases [OF this] show ?thesis unfolding w by auto
    qed
  qed
  from first f have c: "hd (filter (\<lambda>d. dn_name d \<notin> set DEFAULT_DIRECTIVES) (serverDirectives @ node0)) = d
          \<longrightarrow> (\<exists>e. r_result ?R = Inl e)" by simp
  from a b c show ?thesis by blast
qed


text \<open>
  Claim C1 at the query \<open>{ value @skip @duplicate }\<close>: the located pipeline is
  \<open>duplicate\<close> alone, but the loop runs over all directives but the first, built-in ones
  included, so \<open>duplicate\<close> is executed twice (four copies of the value instead of two).
\<close>

theorem builtin_at_head_repeats_first_directive:
  "map (i_directive \<circ> snd \<circ> snd)
     (r_calls (wrappedResolver (test_host test_directives) test_resolve [] Undefined Undefined ()
                 [at ''skip'', at ''duplicate''])) = [''duplicate'', ''duplicate'']
   \<and> r_result (wrappedResolver (test_host test_directives) test_resolve [] Undefined Undefined ()
                 [at ''skip'', at ''duplicate''])
       = Inr (Promise (Fulfilled (Str ''test test test test'')))
   \<and> r_result (wrappedResolver (test_host test_directives) test_resolve [] Undefined Undefined ()
                 [at ''duplicate''])
       = Inr (Promise (Fulfilled (Str ''test test'')))"
  by (simp add: eval_defs)

text \<open>
  Claim C2 at the query \<open>{ value @duplicate @skip }\<close>: the step for \<open>skip\<close> is executed.
  When a directive named \<open>skip\<close> with a transform is registered, that transform is
  called; with the directives of the test suite, where none is, the lookup for
  \<open>include\<close> throws and the field is rejected instead of resolving to two copies.
\<close>

theorem builtin_after_head_is_executed:
  "map (i_directive \<circ> snd \<circ> snd)
     (r_calls (wrappedResolver
                 (test_host [duplicate_directive, duplicate_directive\<lparr>d_name := ''skip''\<rparr>])
                 test_resolve [] Undefined Undefined ()
                 [at ''duplicate'', at ''skip''])) = [''duplicate'', ''skip'']
   \<and> r_result (wrappedResolver (test_host test_directives) test_resolve [] Undefined Undefined ()
                 [at ''duplicate'', at ''include''])
       = Inr (Promise (Rejected TypeError))
   \<and> r_result (wrappedResolver (test_host test_directives) test_resolve [] Undefined Undefined ()
                 [at ''duplicate''])
       = Inr (Promise (Fulfilled (Str ''test test'')))"
  by (simp add: eval_defs)


lemma calls_at_Nil: "calls_at n p [] = []"
  by (simp add: calls_at_def)

lemma calls_at_append: "calls_at n p (xs @ ys) = calls_at n p xs @ calls_at n p ys"
  by (simp add: calls_at_def)

lemma calls_at_tag: "calls_at n p (tag m q xs) = (if n = m \<and> p = q then xs else [])"
  by (induction xs) (auto simp: calls_at_def tag_def)

lemma chain_length_defers:
  "length (snd (snd (chain h source context info step p ds))) = length ds"
proof (induction ds arbitrary: step p)
  case Nil
  show ?case by simp
next
  case (Cons d ds)
  show ?case unfolding chain_defers_Cons by (simp add: Cons.IH)
qed

lemma chain_calls_at_below:
  "n < step \<Longrightarrow> calls_at n q (fst (snd (chain h source context info step p ds))) = []"
proof (induction ds arbitrary: step p)
  case Nil
  show ?case by (simp add: calls_at_Nil)
next
  case (Cons d ds)
  from Cons.prems have "n < Suc step" by simp
  from Cons.IH [OF this] Cons.prems show ?case
    unfolding chain_calls_Cons by (simp add: calls_at_append calls_at_tag)
qed

lemma chain_calls_at:
  "j < length ds \<Longrightarrow>
     calls_at (step + j) RejectionHandler (fst (snd (chain h source context info step p ds)))
       = catch_handler h (snd (snd (chain h source context info step p ds)) ! j) source (ds ! j)
           context info
   \<and> calls_at (step + j) MainChain (fst (snd (chain h source context info step p ds)))
       = snd (then_step h ((p # snd (snd (chain h source context info step p ds))) ! j) source
                (ds ! j) context info)"
proof (induction ds arbitrary: step p j)
  case Nil
  then show ?case by simp
next
  case (Cons d ds)
  show ?case
  proof (cases j)
    case 0
    have "calls_at step q (fst (snd (chain h source context info (Suc step)
             (fst (then_step h p source d context info)) ds))) = []" for q
      by (rule chain_calls_at_below) simp
    then show ?thesis
      unfolding 0 chain_calls_Cons chain_defers_Cons
      by (simp add: calls_at_append calls_at_tag)
  next
    case (Suc k)
    with Cons.prems have "k < length ds" by simp
    from Cons.IH [OF this, of "Suc step" "fst (then_step h p source d context info)"]
    show ?thesis
      unfolding Suc chain_calls_Cons chain_defers_Cons
      by (simp add: calls_at_append calls_at_tag)
  qed
qed

lemma resolveWithDirective_invocation:
  assumes "iv \<in> set (snd (resolveWithDirective h nxt source d context info))"
  shows "i_next iv = nxt \<and> i_directive iv = dn_name d"
proof (cases "filter (\<lambda>c. dn_name d = d_name c) (schema_directives h info)")
  case Nil
  with assms show ?thesis
    unfolding resolveWithDirective_def Let_def by (simp split: sum.splits)
next
  case (Cons c cs)
  then have "c \<in> set (filter (\<lambda>c. dn_name d = d_name c) (schema_directives h info))"
    by simp
  then have n: "dn_name d = d_name c" by simp
  from assms show ?thesis
    unfolding resolveWithDirective_def Let_def Cons list.case option.case
    by (cases "getDirectiveValues h (Some c) d (variableValues h info)"; cases "d_resolve c")
       (simp_all add: n)
qed

lemma catch_handler_Rejected:
  "catch_handler h (Rejected e) source d context info
     = snd (resolveWithDirective h (\<lambda>_. Inr (Promise (Rejected e))) source d context info)"
  by (simp add: catch_handler_def)


lemma step_directives_pipeline:
  assumes "(case fieldASTs h info of Some ns \<Rightarrow> Some ns | None \<Rightarrow> fieldNodes h info) = Some (node0 # nodes)"
    and "filter (\<lambda>d. dn_name d \<notin> set DEFAULT_DIRECTIVES) (serverDirectives @ node0) = directive # others"
  shows "step_directives h serverDirectives info = directive # drop 1 (serverDirectives @ node0)"
  unfolding step_directives_def attached_directives_def assms(1) option.case list.case assms(2)
  by simp

lemma chain_defers_nth:
  "j < length ds \<Longrightarrow>
     snd (snd (chain h source context info step p ds)) ! j
       = fst (then_step h ((p # snd (snd (chain h source context info step p ds))) ! j) source
                (ds ! j) context info)"
proof (induction ds arbitrary: step p j)
  case Nil
  then show ?case by simp
next
  case (Cons d ds)
  show ?case
  proof (cases j)
    case 0
    show ?thesis unfolding 0 chain_defers_Cons by simp
  next
    case (Suc k)
    with Cons.prems have "k < length ds" by simp
    from Cons.IH [OF this, of "Suc step" "fst (then_step h p source d context info)"]
    show ?thesis unfolding Suc chain_defers_Cons by simp
  qed
qed

lemma resolveWithDirective_count:
  "length (snd (resolveWithDirective h nxt source d context info))
     = (if reaches_transform h d info then 1 else 0)"
proof (cases "filter (\<lambda>c. dn_name d = d_name c) (schema_directives h info)")
  case Nil
  then show ?thesis
    unfolding resolveWithDirective_def reaches_transform_def Let_def
    by (simp split: sum.splits)
next
  case (Cons c cs)
  show ?thesis
    unfolding resolveWithDirective_def reaches_transform_def Let_def Cons list.case option.case
    by (cases "getDirectiveValues h (Some c) d (variableValues h info)"; cases "d_resolve c")
       simp_all
qed

lemma step_calls:
  assumes i: "i < length (r_defers (wrappedResolver h resolve serverDirectives source args context info))"
  shows "calls_at i RejectionHandler
           (r_calls (wrappedResolver h resolve serverDirectives source args context info))
         = catch_handler h
             (r_defers (wrappedResolver h resolve serverDirectives source args context info) ! i)
             source (step_directives h serverDirectives info ! i) context info"
    and "calls_at i MainChain
           (r_calls (wrappedResolver h resolve serverDirectives source args context info))
         = (if i = 0
            then snd (resolveWithDirective h
                   (\<lambda>_. case resolve source args context info of
                           Inl e \<Rightarrow> Inl e
                         | Inr v \<Rightarrow> Inr (Promise (promise_resolve v)))
                   source (step_directives h serverDirectives info ! i) context info)
            else snd (then_step h
                   (r_defers (wrappedResolver h resolve serverDirectives source args context info)
                      ! (i - 1))
                   source (step_directives h serverDirectives info ! i) context info))"
    and "0 < i \<longrightarrow>
         r_defers (wrappedResolver h resolve serverDirectives source args context info) ! i
           = fst (then_step h
                   (r_defers (wrappedResolver h resolve serverDirectives source args context info)
                      ! (i - 1))
                   source (step_directives h serverDirectives info ! i) context info)"
    and "r_defers (wrappedResolver h resolve serverDirectives source args context info) ! i
           = Rejected e \<longrightarrow>
         r_result (wrappedResolver h resolve serverDirectives source args context info)
           = Inr (Promise (Rejected e))"
proof -
  let ?R = "wrappedResolver h resolve serverDirectives source args context info"
  let ?next = "\<lambda>_::unit. case resolve source args context info of
                   Inl e \<Rightarrow> Inl e
                 | Inr v \<Rightarrow> Inr (Promise (promise_resolve v))"
  from i have "r_defers ?R \<noteq> []" by auto
  with wrappedResolver_defers_cases [of h resolve serverDirectives source args "context" info]
  obtain node0 nodes directive others p0 invs where
    a: "(case fieldASTs h info of Some ns \<Rightarrow> Some ns | None \<Rightarrow> fieldNodes h info) = Some (node0 # nodes)"
    and b: "filter (\<lambda>d. dn_name d \<notin> set DEFAULT_DIRECTIVES) (serverDirectives @ node0) = directive # others"
    and c: "resolveWithDirective h ?next source directive context info = (Inr p0, invs)"
    by blast
  note w = wrappedResolver_pipeline [where resolve = resolve and source = source and args = args, OF a b c]
  note sd = step_directives_pipeline [OF a b]
  define ds where "ds = drop 1 (serverDirectives @ node0)"
  define calls where "calls = fst (snd (chain h source context info 1 p0 ds))"
  define defers where "defers = snd (snd (chain h source context info 1 p0 ds))"
  have len: "length defers = length ds"
    unfolding defers_def by (rule chain_length_defers)
  have rd: "r_defers ?R = p0 # defers"
    unfolding w defers_def ds_def by simp
  have rc: "calls_at n q (r_calls ?R)
              = (if n = 0 \<and> q = MainChain then invs else [])
                @ (if n = 0 \<and> q = RejectionHandler
                   then catch_handler h p0 source directive context info else [])
                @ calls_at n q calls" for n q
    unfolding w calls_def ds_def by (simp add: calls_at_append calls_at_tag)
  have rr: "r_result ?R = Inr (Promise (fst (chain h source context info 1 p0 ds)))"
    unfolding w ds_def by simp
  have steps: "step_directives h serverDirectives info = directive # ds"
    unfolding sd ds_def ..
  have inv0: "invs = snd (resolveWithDirective h ?next source directive context info)"
    unfolding c by simp
  have below: "calls_at 0 q calls = []" for q
    unfolding calls_def by (rule chain_calls_at_below) simp
  have later: "calls_at (Suc j) RejectionHandler calls
                 = catch_handler h (defers ! j) source (ds ! j) context info
             \<and> calls_at (Suc j) MainChain calls
                 = snd (then_step h ((p0 # defers) ! j) source (ds ! j) context info)
             \<and> defers ! j = fst (then_step h ((p0 # defers) ! j) source (ds ! j) context info)"
    if "i = Suc j" for j
  proof -
    from that i have j: "j < length ds" unfolding rd len [symmetric] by simp
    from chain_calls_at [OF j, of 1 h source "context" info p0]
         chain_defers_nth [OF j, of h source "context" info 1 p0]
    show ?thesis unfolding calls_def defers_def by simp
  qed
  show "calls_at i RejectionHandler (r_calls ?R)
         = catch_handler h (r_defers ?R ! i) source (step_directives h serverDirectives info ! i)
             context info"
  proof (cases i)
    case 0
    show ?thesis unfolding rc 0 steps rd by (simp add: below)
  next
    case (Suc j)
    from later [OF Suc] show ?thesis unfolding rc Suc steps rd by simp
  qed
  show "calls_at i MainChain (r_calls ?R)
         = (if i = 0
            then snd (resolveWithDirective h ?next source
                        (step_directives h serverDirectives info ! i) context info)
            else snd (then_step h (r_defers ?R ! (i - 1)) source
                        (step_directives h serverDirectives info ! i) context info))"
  proof (cases i)
    case 0
    show ?thesis unfolding rc 0 steps by (simp add: below inv0 [symmetric])
  next
    case (Suc j)
    from later [OF Suc] show ?thesis unfolding rc Suc steps rd by simp
  qed
  show "0 < i \<longrightarrow> r_defers ?R ! i
           = fst (then_step h (r_defers ?R ! (i - 1)) source
                    (step_directives h serverDirectives info ! i) context info)"
  proof (cases i)
    case 0
    then show ?thesis by simp
  next
    case (Suc j)
    from later [OF Suc] show ?thesis unfolding Suc steps rd by simp
  qed
  show "r_defers ?R ! i = Rejected e \<longrightarrow> r_result ?R = Inr (Promise (Rejected e))"
  proof
    assume "r_defers ?R ! i = Rejected e"
    with i have "Rejected e \<in> set (p0 # defers)"
      unfolding rd by (metis nth_mem)
    then show "r_result ?R = Inr (Promise (Rejected e))"
      unfolding rr defers_def by (simp only: chain_rejection_final)
  qed
qed

lemma then_step_count:
  "length (snd (then_step h p source d context info))
     = (if reaches_transform h d info \<and> fulfilled p then 1 else 0)"
  unfolding then_step_snd fulfilled_def
  by (cases p) (simp_all add: resolveWithDirective_count)

text \<open>
  Claim C10, as amended: when the promise of step \<open>i\<close> of a pipeline is rejected with
  \<open>e\<close>, the handler the core attached to that promise calls \<open>resolveWithDirective\<close> for
  the directive of step \<open>i\<close> with a \<open>next\<close> closure that returns a promise rejected with
  \<open>e\<close>. That call invokes the directive's transform exactly once when the directive is
  registered with a transform and its arguments resolve, and not at all otherwise. Its
  outcome is dropped: the wrapped resolver's promise is rejected with \<open>e\<close>. On the main
  chain the transform of step \<open>i\<close> was invoked exactly once when, in addition, the step
  is the first one or its predecessor was fulfilled, and not at all otherwise. So the
  handler's invocation is a second one in that case only; for a step behind an already
  rejected step it is the transform's only invocation.
\<close>

theorem rejected_step_invocations:
  assumes i: "i < length (r_defers (wrappedResolver h resolve serverDirectives source args context info))"
    and rej: "r_defers (wrappedResolver h resolve serverDirectives source args context info) ! i = Rejected e"
  shows "calls_at i RejectionHandler
           (r_calls (wrappedResolver h resolve serverDirectives source args context info))
         = snd (resolveWithDirective h (\<lambda>_. Inr (Promise (Rejected e))) source
                  (step_directives h serverDirectives info ! i) context info)
     \<and> length (calls_at i RejectionHandler
           (r_calls (wrappedResolver h resolve serverDirectives source args context info)))
         = (if reaches_transform h (step_directives h serverDirectives info ! i) info then 1 else 0)
     \<and> (\<forall>iv \<in> set (calls_at i RejectionHandler
                      (r_calls (wrappedResolver h resolve serverDirectives source args context info))).
           i_next iv () = Inr (Promise (Rejected e))
         \<and> i_directive iv = dn_name (step_directives h serverDirectives info ! i))
     \<and> r_result (wrappedResolver h resolve serverDirectives source args context info)
         = Inr (Promise (Rejected e))
     \<and> length (calls_at i MainChain
           (r_calls (wrappedResolver h resolve serverDirectives source args context info)))
         = (if reaches_transform h (step_directives h serverDirectives info ! i) info
               \<and> (i = 0
                  \<or> fulfilled (r_defers (wrappedResolver h resolve serverDirectives source args
                                           context info) ! (i - 1)))
            then 1 else 0)"
proof -
  let ?R = "wrappedResolver h resolve serverDirectives source args context info"
  let ?d = "step_directives h serverDirectives info ! i"
  note sc = step_calls [OF i]
  have handler: "calls_at i RejectionHandler (r_calls ?R)
         = snd (resolveWithDirective h (\<lambda>_. Inr (Promise (Rejected e))) source ?d context info)"
    unfolding sc(1) rej by (rule catch_handler_Rejected)
  have hcount: "length (calls_at i RejectionHandler (r_calls ?R))
         = (if reaches_transform h ?d info then 1 else 0)"
    unfolding handler by (rule resolveWithDirective_count)
  have ivs: "\<forall>iv \<in> set (calls_at i RejectionHandler (r_calls ?R)).
           i_next iv () = Inr (Promise (Rejected e)) \<and> i_directive iv = dn_name ?d"
    unfolding handler by (auto dest: resolveWithDirective_invocation)
  from sc(4) [of e] rej have res: "r_result ?R = Inr (Promise (Rejected e))" by simp
  have mcount: "length (calls_at i MainChain (r_calls ?R))
         = (if reaches_transform h ?d info \<and> (i = 0 \<or> fulfilled (r_defers ?R ! (i - 1)))
            then 1 else 0)"
  proof (cases "i = 0")
    case True
    have "calls_at i MainChain (r_calls ?R)
            = snd (resolveWithDirective h
                     (\<lambda>_. case resolve source args context info of
                             Inl e \<Rightarrow> Inl e
                           | Inr v \<Rightarrow> Inr (Promise (promise_resolve v)))
                     source ?d context info)"
      unfolding sc(2) if_P [OF True] ..
    then have "length (calls_at i MainChain (r_calls ?R))
                 = (if reaches_transform h ?d info then 1 else 0)"
      by (simp only: resolveWithDirective_count)
    with True show ?thesis by (cases "reaches_transform h ?d info") simp_all
  next
    case False
    have "calls_at i MainChain (r_calls ?R)
            = snd (then_step h (r_defers ?R ! (i - 1)) source ?d context info)"
      unfolding sc(2) if_not_P [OF False] ..
    then have "length (calls_at i MainChain (r_calls ?R))
                 = (if reaches_transform h ?d info \<and> fulfilled (r_defers ?R ! (i - 1))
                    then 1 else 0)"
      by (simp only: then_step_count)
    with False show ?thesis
      by (cases "reaches_transform h ?d info"; cases "fulfilled (r_defers ?R ! (i - 1))") simp_all
  qed
  show ?thesis
    by (rule conjI [OF handler conjI [OF hcount conjI [OF ivs conjI [OF res mcount]]]])
qed


lemmas step_defs = step_directives_def attached_directives_def reaches_transform_def fulfilled_def

theorem rejected_step_invocations_witness:
  "length (calls_at 1 MainChain
     (r_calls (wrappedResolver (test_host test_directives) test_resolve [] Undefined Undefined ()
                 [at ''duplicate'', at ''throws'', at ''catch'']))) = 1
   \<and> length (calls_at 1 RejectionHandler
     (r_calls (wrappedResolver (test_host test_directives) test_resolve [] Undefined Undefined ()
                 [at ''duplicate'', at ''throws'', at ''catch'']))) = 1
   \<and> length (calls_at 2 MainChain
     (r_calls (wrappedResolver (test_host test_directives) test_resolve [] Undefined Undefined ()
                 [at ''duplicate'', at ''throws'', at ''catch'']))) = 0
   \<and> length (calls_at 2 RejectionHandler
     (r_calls (wrappedResolver (test_host test_directives) test_resolve [] Undefined Undefined ()
                 [at ''duplicate'', at ''throws'', at ''catch'']))) = 1
   \<and> length (calls_at 1 MainChain
     (r_calls (wrappedResolver (test_host test_directives) test_resolve [] Undefined Undefined ()
                 [at ''duplicate'', at ''nope'']))) = 0
   \<and> length (calls_at 1 RejectionHandler
     (r_calls (wrappedResolver (test_host test_directives) test_resolve [] Undefined Undefined ()
                 [at ''duplicate'', at ''nope'']))) = 0
   \<and> r_result (wrappedResolver (test_host test_directives) test_resolve [] Undefined Undefined ()
                 [at ''duplicate'', at ''throws'', at ''catch''])
       = Inr (Promise (Rejected (Str ''Test Error'')))"
proof -
  let ?H = "test_host test_directives"
  let ?Q = "[at ''duplicate'', at ''throws'', at ''catch'']"
  let ?N = "[at ''duplicate'', at ''nope'']"
  let ?X = "wrappedResolver ?H test_resolve [] Undefined Undefined () ?Q"
  let ?Y = "wrappedResolver ?H test_resolve [] Undefined Undefined () ?N"
  have x1: "1 < length (r_defers ?X)" and x2: "2 < length (r_defers ?X)"
    and y1: "1 < length (r_defers ?Y)"
    by (simp_all add: eval_defs)
  have rx1: "r_defers ?X ! 1 = Rejected (Str ''Test Error'')"
    and rx2: "r_defers ?X ! 2 = Rejected (Str ''Test Error'')"
    and ry1: "r_defers ?Y ! 1 = Rejected TypeError"
    by (simp_all add: eval_defs)
  have cx1: "reaches_transform ?H (step_directives ?H [] ?Q ! 1) ?Q
               \<and> ((1::nat) = 0 \<or> fulfilled (r_defers ?X ! (1 - 1)))"
    by (simp add: eval_defs step_defs)
  have cx2: "reaches_transform ?H (step_directives ?H [] ?Q ! 2) ?Q"
    and nx2: "\<not> (reaches_transform ?H (step_directives ?H [] ?Q ! 2) ?Q
               \<and> ((2::nat) = 0 \<or> fulfilled (r_defers ?X ! (2 - 1))))"
    by (simp_all add: eval_defs step_defs)
  have cy1: "\<not> reaches_transform ?H (step_directives ?H [] ?N ! 1) ?N"
    by (simp add: eval_defs step_defs)
  note tx1 = rejected_step_invocations [OF x1 rx1]
  note tx2 = rejected_step_invocations [OF x2 rx2]
  note ty1 = rejected_step_invocations [OF y1 ry1]
  from tx1 have "length (calls_at 1 MainChain (r_calls ?X))
       = (if reaches_transform ?H (step_directives ?H [] ?Q ! 1) ?Q
               \<and> ((1::nat) = 0 \<or> fulfilled (r_defers ?X ! (1 - 1))) then 1 else 0)"
    by (rule conjunct2 [OF conjunct2 [OF conjunct2 [OF conjunct2]]])
  then have a: "length (calls_at 1 MainChain (r_calls ?X)) = 1"
    unfolding if_P [OF cx1] .
  from tx1 have "length (calls_at 1 RejectionHandler (r_calls ?X))
       = (if reaches_transform ?H (step_directives ?H [] ?Q ! 1) ?Q then 1 else 0)"
    by (rule conjunct1 [OF conjunct2])
  then have b: "length (calls_at 1 RejectionHandler (r_calls ?X)) = 1"
    unfolding if_P [OF conjunct1 [OF cx1]] .
  from tx2 have "length (calls_at 2 MainChain (r_calls ?X))
       = (if reaches_transform ?H (step_directives ?H [] ?Q ! 2) ?Q
               \<and> ((2::nat) = 0 \<or> fulfilled (r_defers ?X ! (2 - 1))) then 1 else 0)"
    by (rule conjunct2 [OF conjunct2 [OF conjunct2 [OF conjunct2]]])
  then have c: "length (calls_at 2 MainChain (r_calls ?X)) = 0"
    unfolding if_not_P [OF nx2] .
  from tx2 have "length (calls_at 2 RejectionHandler (r_calls ?X))
       = (if reaches_transform ?H (step_directives ?H [] ?Q ! 2) ?Q then 1 else 0)"
    by (rule conjunct1 [OF conjunct2])
  then have d: "length (calls_at 2 RejectionHandler (r_calls ?X)) = 1"
    unfolding if_P [OF cx2] .
  from ty1 have "length (calls_at 1 MainChain (r_calls ?Y))
       = (if reaches_transform ?H (step_directives ?H [] ?N ! 1) ?N
               \<and> ((1::nat) = 0 \<or> fulfilled (r_defers ?Y ! (1 - 1))) then 1 else 0)"
    by (rule conjunct2 [OF conjunct2 [OF conjunct2 [OF conjunct2]]])
  with cy1 have e: "length (calls_at 1 MainChain (r_calls ?Y)) = 0"
    by simp
  from ty1 have "length (calls_at 1 RejectionHandler (r_calls ?Y))
       = (if reaches_transform ?H (step_directives ?H [] ?N ! 1) ?N then 1 else 0)"
    by (rule conjunct1 [OF conjunct2])
  then have f: "length (calls_at 1 RejectionHandler (r_calls ?Y)) = 0"
    unfolding if_not_P [OF cy1] .
  from tx2 have g: "r_result ?X = Inr (Promise (Rejected (Str ''Test Error'')))"
    by (rule conjunct1 [OF conjunct2 [OF conjunct2 [OF conjunct2]]])
  show ?thesis
    by (rule conjI [OF a conjI [OF b conjI [OF c conjI [OF d conjI [OF e conjI [OF f g]]]]]])
qed

text \<open>
  Claim C10, as stated, fails at the test query \<open>@duplicate @throws @catch\<close>: the promise
  of the step of \<open>catch\<close> is rejected, and the transform of \<open>catch\<close> is invoked exactly
  once, by the rejection handler; it is not a second invocation, and its error path runs
  once (the test suite expects one recorded error).
\<close>

theorem downstream_transform_invoked_once:
  "r_defers (wrappedResolver (test_host test_directives) test_resolve [] Undefined Undefined ()
               [at ''duplicate'', at ''throws'', at ''catch'']) ! 2 = Rejected (Str ''Test Error'')
   \<and> map (i_directive \<circ> snd \<circ> snd)
        (r_calls (wrappedResolver (test_host test_directives) test_resolve [] Undefined Undefined ()
               [at ''duplicate'', at ''throws'', at ''catch'']))
       = [''duplicate'', ''throws'', ''throws'', ''catch'']
   \<and> map (fst \<circ> snd)
        (r_calls (wrappedResolver (test_host test_directives) test_resolve [] Undefined Undefined ()
               [at ''duplicate'', at ''throws'', at ''catch'']))
       = [MainChain, MainChain, RejectionHandler, RejectionHandler]"
  by (simp add: eval_defs)


lemma attached_directives_nodes:
  assumes "d \<in> set (attached_directives h serverDirectives info)"
  shows "\<exists>node0 nodes.
           (case fieldASTs h info of Some ns \<Rightarrow> Some ns | None \<Rightarrow> fieldNodes h info)
             = Some (node0 # nodes)
         \<and> attached_directives h serverDirectives info = serverDirectives @ node0"
proof (cases "case fieldASTs h info of Some ns \<Rightarrow> Some ns | None \<Rightarrow> fieldNodes h info")
  case None
  with assms show ?thesis by (simp add: attached_directives_def)
next
  case (Some ns)
  with assms show ?thesis by (cases ns) (simp_all add: attached_directives_def)
qed

text \<open>
  Claim C9, as amended: let a directive that is not named \<open>skip\<close> or \<open>include\<close> be
  attached to the field, statically or on the first field node of the selection, and let
  no registered directive have its name. Then \<open>resolveWithDirective\<close> throws for it
  without calling any transform. The wrapped resolver never resolves the field to a
  value: it throws, or it returns a promise that is rejected or never settles. It throws
  when the directive is the first one located. When it returns a promise, the directive
  has a step behind the first one, and whenever the promise of the step before it is
  fulfilled, the promise of its own step and the returned promise are rejected with the
  error that \<open>resolveWithDirective\<close> threw.
\<close>

theorem unregistered_directive_never_resolves:
  assumes attached: "d \<in> set (attached_directives h serverDirectives info)"
    and custom: "dn_name d \<notin> set DEFAULT_DIRECTIVES"
    and unregistered: "dn_name d \<notin> d_name ` set (schema_directives h info)"
  shows "(\<forall>nxt. \<exists>e. resolveWithDirective h nxt source d context info = (Inl e, []))
     \<and> ((\<exists>e. r_result (wrappedResolver h resolve serverDirectives source args context info) = Inl e)
        \<or> (\<exists>e. r_result (wrappedResolver h resolve serverDirectives source args context info)
                  = Inr (Promise (Rejected e)))
        \<or> r_result (wrappedResolver h resolve serverDirectives source args context info)
             = Inr (Promise Pending))
     \<and> (hd (filter (\<lambda>d. dn_name d \<notin> set DEFAULT_DIRECTIVES)
               (attached_directives h serverDirectives info)) = d
          \<longrightarrow> (\<exists>e. r_result (wrappedResolver h resolve serverDirectives source args context info) = Inl e))
     \<and> ((\<exists>x. r_result (wrappedResolver h resolve serverDirectives source args context info)
                 = Inr x)
          \<longrightarrow> (\<exists>i. 0 < i
                 \<and> i < length (r_defers (wrappedResolver h resolve serverDirectives source args
                                          context info))
                 \<and> step_directives h serverDirectives info ! i = d))
     \<and> (\<forall>i v e. 0 < i
          \<longrightarrow> i < length (r_defers (wrappedResolver h resolve serverDirectives source args
                                     context info))
          \<longrightarrow> step_directives h serverDirectives info ! i = d
          \<longrightarrow> r_defers (wrappedResolver h resolve serverDirectives source args context info)
                ! (i - 1) = Fulfilled v
          \<longrightarrow> fst (resolveWithDirective h (\<lambda>_. Inr (Promise (promise_resolve v))) source d
                     context info) = Inl e
          \<longrightarrow> r_defers (wrappedResolver h resolve serverDirectives source args context info) ! i
                = Rejected e
              \<and> r_result (wrappedResolver h resolve serverDirectives source args context info)
                = Inr (Promise (Rejected e)))"
proof -
  let ?R = "wrappedResolver h resolve serverDirectives source args context info"
  let ?next = "\<lambda>_::unit. case resolve source args context info of
                   Inl e \<Rightarrow> Inl e
                 | Inr v \<Rightarrow> Inr (Promise (promise_resolve v))"
  from attached_directives_nodes [OF attached] obtain node0 nodes where
    nodes: "(case fieldASTs h info of Some ns \<Rightarrow> Some ns | None \<Rightarrow> fieldNodes h info)
              = Some (node0 # nodes)"
    and att: "attached_directives h serverDirectives info = serverDirectives @ node0"
    by blast
  from attached have attached': "d \<in> set (serverDirectives @ node0)" unfolding att .
  note old = unregistered_directive_outcome [OF nodes attached' custom unregistered,
      where source = source and resolve = resolve and args = args]
  from old have a: "\<forall>nxt. \<exists>e. resolveWithDirective h nxt source d context info = (Inl e, [])"
    by (rule conjunct1)
  from old have b: "(\<exists>e. r_result ?R = Inl e) \<or> (\<exists>e. r_result ?R = Inr (Promise (Rejected e)))
        \<or> r_result ?R = Inr (Promise Pending)"
    by (rule conjunct1 [OF conjunct2])
  from old have c: "hd (filter (\<lambda>d. dn_name d \<notin> set DEFAULT_DIRECTIVES)
               (attached_directives h serverDirectives info)) = d
          \<longrightarrow> (\<exists>e. r_result ?R = Inl e)"
    unfolding att by (rule conjunct2 [OF conjunct2])
  have d: "(\<exists>x. r_result ?R = Inr x)
          \<longrightarrow> (\<exists>i. 0 < i \<and> i < length (r_defers ?R) \<and> step_directives h serverDirectives info ! i = d)"
  proof
    assume returned: "\<exists>x. r_result ?R = Inr x"
    from attached' custom obtain directive0 others0 where
      f0: "filter (\<lambda>d. dn_name d \<notin> set DEFAULT_DIRECTIVES) (serverDirectives @ node0)
             = directive0 # others0"
      by (cases "filter (\<lambda>d. dn_name d \<notin> set DEFAULT_DIRECTIVES) (serverDirectives @ node0)")
         (auto simp: filter_empty_conv)
    obtain c0 invs0 where
      r0: "resolveWithDirective h ?next source directive0 context info = (c0, invs0)"
      by (cases "resolveWithDirective h ?next source directive0 context info")
    have "r_defers ?R \<noteq> []"
    proof (cases c0)
      case (Inl e0)
      have "r_result ?R = Inl e0"
        unfolding wrappedResolver_def Let_def nodes option.case list.case f0 r0 Inl by simp
      with returned show ?thesis by simp
    next
      case (Inr p0)
      show ?thesis
        unfolding wrappedResolver_pipeline [where resolve = resolve and source = source
            and args = args, OF nodes f0 r0 [unfolded Inr]]
        by simp
    qed
    with wrappedResolver_defers_cases [of h resolve serverDirectives source args "context" info]
    obtain node0' nodes' directive others p0 invs where
      a': "(case fieldASTs h info of Some ns \<Rightarrow> Some ns | None \<Rightarrow> fieldNodes h info) = Some (node0' # nodes')"
      and b': "filter (\<lambda>d. dn_name d \<notin> set DEFAULT_DIRECTIVES) (serverDirectives @ node0') = directive # others"
      and c': "resolveWithDirective h ?next source directive context info = (Inr p0, invs)"
      by blast
    from a' nodes have n0: "node0' = node0" by simp
    note w = wrappedResolver_pipeline [where resolve = resolve and source = source and args = args,
        OF a' b' c']
    note sd = step_directives_pipeline [OF a' b']
    have ne: "directive \<noteq> d"
    proof
      assume "directive = d"
      with c' have "resolveWithDirective h ?next source d context info = (Inr p0, invs)"
        by simp
      moreover from a obtain e0 where
        "resolveWithDirective h ?next source d context info = (Inl e0, [])" by blast
      ultimately show False by simp
    qed
    have mem: "d \<in> set (drop 1 (serverDirectives @ node0))"
    proof (cases "serverDirectives @ node0")
      case Nil
      with attached' show ?thesis by simp
    next
      case (Cons x xs)
      show ?thesis
      proof (cases "x = d")
        case True
        with Cons custom b' n0 have "directive = d" by simp
        with ne show ?thesis by simp
      next
        case False
        with attached' Cons show ?thesis by simp
      qed
    qed
    then have "\<exists>j < length (drop 1 (serverDirectives @ node0)).
                 drop 1 (serverDirectives @ node0) ! j = d"
      by (simp only: in_set_conv_nth)
    then obtain j where j: "j < length (drop 1 (serverDirectives @ node0))"
      and dj: "drop 1 (serverDirectives @ node0) ! j = d"
      by blast
    have "length (r_defers ?R) = Suc (length (drop 1 (serverDirectives @ node0)))"
      unfolding w n0 by (simp add: chain_length_defers)
    with j have "Suc j < length (r_defers ?R)" by simp
    moreover have "step_directives h serverDirectives info ! Suc j = d"
      unfolding sd n0 using dj by simp
    ultimately show "\<exists>i. 0 < i \<and> i < length (r_defers ?R)
                       \<and> step_directives h serverDirectives info ! i = d"
      by blast
  qed
  have e: "\<forall>i v e. 0 < i \<longrightarrow> i < length (r_defers ?R)
          \<longrightarrow> step_directives h serverDirectives info ! i = d
          \<longrightarrow> r_defers ?R ! (i - 1) = Fulfilled v
          \<longrightarrow> fst (resolveWithDirective h (\<lambda>_. Inr (Promise (promise_resolve v))) source d
                     context info) = Inl e
          \<longrightarrow> r_defers ?R ! i = Rejected e \<and> r_result ?R = Inr (Promise (Rejected e))"
  proof (intro allI impI)
    fix i v e
    assume pos: "0 < i" and i: "i < length (r_defers ?R)"
      and di: "step_directives h serverDirectives info ! i = d"
      and pv: "r_defers ?R ! (i - 1) = Fulfilled v"
      and thrown: "fst (resolveWithDirective h (\<lambda>_. Inr (Promise (promise_resolve v))) source d
                     context info) = Inl e"
    note sc = step_calls [OF i]
    from sc(3) pos have "r_defers ?R ! i
           = fst (then_step h (Fulfilled v) source d context info)"
      unfolding di pv by simp
    also from thrown have "\<dots> = Rejected e"
      unfolding then_step_def
      by (cases "resolveWithDirective h (\<lambda>_. Inr (Promise (promise_resolve v))) source d
                     context info") simp
    finally have r: "r_defers ?R ! i = Rejected e" .
    with sc(4) [of e] show "r_defers ?R ! i = Rejected e \<and> r_result ?R = Inr (Promise (Rejected e))"
      by simp
  qed
  show ?thesis
    by (rule conjI [OF a conjI [OF b conjI [OF c conjI [OF d e]]]])
qed


theorem unregistered_directive_never_resolves_witness:
  "r_defers (wrappedResolver (test_host test_directives) test_resolve [] Undefined Undefined ()
               [at ''duplicate'', at ''nope'']) ! 1 = Rejected TypeError
   \<and> r_result (wrappedResolver (test_host test_directives) test_resolve [] Undefined Undefined ()
               [at ''duplicate'', at ''nope'']) = Inr (Promise (Rejected TypeError))
   \<and> (\<exists>e. r_result (wrappedResolver (test_host test_directives) test_resolve [] Undefined
                Undefined () [at ''nope'', at ''duplicate'']) = Inl e)"
proof -
  let ?H = "test_host test_directives"
  let ?N = "[at ''duplicate'', at ''nope'']"
  let ?M = "[at ''nope'', at ''duplicate'']"
  let ?Y = "wrappedResolver ?H test_resolve [] Undefined Undefined () ?N"
  let ?Z = "wrappedResolver ?H test_resolve [] Undefined Undefined () ?M"
  have cu: "dn_name (at ''nope'') \<notin> set DEFAULT_DIRECTIVES"
    by (simp add: at_def DEFAULT_DIRECTIVES_def)
  have an: "at ''nope'' \<in> set (attached_directives ?H [] ?N)"
    and am: "at ''nope'' \<in> set (attached_directives ?H [] ?M)"
    by (simp_all add: attached_directives_def test_host_def)
  have un: "dn_name (at ''nope'') \<notin> d_name ` set (schema_directives ?H ?N)"
    and um: "dn_name (at ''nope'') \<notin> d_name ` set (schema_directives ?H ?M)"
    by (simp_all add: eval_defs)
  note ty = unregistered_directive_never_resolves [OF an cu un,
      where source = Undefined and resolve = test_resolve and args = Undefined]
  note tz = unregistered_directive_never_resolves [OF am cu um,
      where source = Undefined and resolve = test_resolve and args = Undefined]
  have p: "(0::nat) < 1" by simp
  have l: "1 < length (r_defers ?Y)" by (simp add: eval_defs)
  have s1: "step_directives ?H [] ?N ! 1 = at ''nope''"
    by (simp add: eval_defs step_defs)
  have f0: "r_defers ?Y ! (1 - 1) = Fulfilled (Str ''test test'')"
    by (simp add: eval_defs)
  have th: "fst (resolveWithDirective ?H (\<lambda>_. Inr (Promise (promise_resolve (Str ''test test''))))
                   Undefined (at ''nope'') () ?N) = Inl TypeError"
    by (simp add: eval_defs)
  from ty have "\<forall>i v e. 0 < i \<longrightarrow> i < length (r_defers ?Y)
          \<longrightarrow> step_directives ?H [] ?N ! i = at ''nope''
          \<longrightarrow> r_defers ?Y ! (i - 1) = Fulfilled v
          \<longrightarrow> fst (resolveWithDirective ?H (\<lambda>_. Inr (Promise (promise_resolve v))) Undefined
                     (at ''nope'') () ?N) = Inl e
          \<longrightarrow> r_defers ?Y ! i = Rejected e \<and> r_result ?Y = Inr (Promise (Rejected e))"
    by (rule conjunct2 [OF conjunct2 [OF conjunct2 [OF conjunct2]]])
  from this [rule_format, OF p l s1 f0 th]
  have a: "r_defers ?Y ! 1 = Rejected TypeError \<and> r_result ?Y = Inr (Promise (Rejected TypeError))" .
  have hdm: "hd (filter (\<lambda>d. dn_name d \<notin> set DEFAULT_DIRECTIVES) (attached_directives ?H [] ?M))
               = at ''nope''"
    by (simp add: attached_directives_def test_host_def at_def DEFAULT_DIRECTIVES_def)
  from tz have "hd (filter (\<lambda>d. dn_name d \<notin> set DEFAULT_DIRECTIVES) (attached_directives ?H [] ?M))
               = at ''nope'' \<longrightarrow> (\<exists>e. r_result ?Z = Inl e)"
    by (rule conjunct1 [OF conjunct2 [OF conjunct2]])
  with hdm have b: "\<exists>e. r_result ?Z = Inl e" by (rule rev_mp)
  from a b show ?thesis by (simp only: conj_assoc)
qed

text \<open>
  Claim C9, as stated, fails in three ways: an unregistered \<open>skip\<close> at the head of the
  directives is ignored and the field's unmodified value is returned; behind a first
  directive that fulfils, the unknown directive does not make the wrapped resolver
  throw, it returns a rejected promise; and an unknown directive written on a later
  field node of a merged selection is never read, so the unmodified value is returned.
\<close>

theorem unregistered_directive_counterexample:
  "r_result (wrappedResolver (test_host [duplicate_directive]) test_resolve [] Undefined Undefined ()
               [at ''skip'']) = Inr (Str ''test'')
   \<and> r_result (wrappedResolver (test_host [duplicate_directive]) test_resolve [] Undefined Undefined ()
               [at ''duplicate'', at ''nope'']) = Inr (Promise (Rejected TypeError))
   \<and> r_result (wrappedResolver (merged_selection_host [duplicate_directive]) test_resolve []
               Undefined Undefined () [at ''nope'']) = Inr (Str ''test'')"
  by (simp add: eval_defs merged_selection_host_def)


section \<open>Properties of the schema walk\<close>

lemma map_of_map_entry:
  "map_of (map (\<lambda>(n, v). if n = k then (n, g v) else (n, v)) xs) n
     = (if n = k then map_option g (map_of xs n) else map_of xs n)"
  by (induction xs) auto

lemma fields_of_set_resolve:
  "fields_of (set_resolve ts tname label r) n =
     (if n = tname
      then map_option (map (\<lambda>(l, f). if l = label then (l, f\<lparr>f_resolve := Some r\<rparr>) else (l, f)))
             (fields_of ts n)
      else fields_of ts n)"
  unfolding fields_of_def set_resolve_def map_of_map_entry
  by (cases "map_of ts n") auto

lemma own_fields_set_resolve:
  "own_fields (set_resolve ts tname label r) n =
     (if n = tname
      then map (\<lambda>(l, f). if l = label then (l, f\<lparr>f_resolve := Some r\<rparr>) else (l, f))
             (own_fields ts n)
      else own_fields ts n)"
  unfolding own_fields_def fields_of_set_resolve
  by (cases "fields_of ts n") auto

lemma map_of_set_field:
  "map_of (map (\<lambda>(l, f). if l = label then (l, f\<lparr>f_resolve := Some r\<rparr>) else (l, f)) fs) l' =
     (if l' = label then map_option (\<lambda>f. f\<lparr>f_resolve := Some r\<rparr>) (map_of fs l') else map_of fs l')"
  by (induction fs) auto

lemma wrapFieldsLoop_Cons_shallow:
  "wrapFieldsLoop k ts tname (label # labels) False typeMet =
     (case map_of (own_fields ts tname) label of
        None \<Rightarrow> wrapFieldsLoop k ts tname labels False typeMet
      | Some field \<Rightarrow>
          if typeMet_get typeMet (type_key (f_type field)) then
            wrapFieldsLoop k ts tname labels False typeMet
          else
            (case resolveMiddlewareWrapper (f_resolve field) (f_directives field) of
               Inl e \<Rightarrow> Some (Some e, ts, typeMet)
             | Inr r \<Rightarrow> wrapFieldsLoop k (set_resolve ts tname label r) tname labels False typeMet))"
  by (simp add: own_fields_def Let_def split: option.splits sum.splits)

lemma shallow_loop:
  "distinct labels \<Longrightarrow>
   \<exists>err ts'. wrapFieldsLoop k ts tname labels False typeMet = Some (err, ts', typeMet)
     \<and> (\<forall>n. n \<noteq> tname \<longrightarrow> fields_of ts' n = fields_of ts n)
     \<and> (err = None \<longrightarrow>
          (\<forall>l f. map_of (own_fields ts tname) l = Some f \<longrightarrow>
             (if l \<in> set labels \<and> \<not> typeMet_get typeMet (type_key (f_type f))
              then \<exists>r. resolveMiddlewareWrapper (f_resolve f) (f_directives f) = Inr r
                     \<and> map_of (own_fields ts' tname) l = Some (f\<lparr>f_resolve := Some r\<rparr>)
              else map_of (own_fields ts' tname) l = Some f)))"
proof (induction labels arbitrary: ts)
  case Nil
  show ?case by simp
next
  case (Cons label labels)
  from Cons.prems have d: "distinct labels" and nl: "label \<notin> set labels" by simp_all
  note IH = Cons.IH [OF d]
  show ?case
  proof (cases "map_of (own_fields ts tname) label")
    case None
    from IH [of ts] obtain err ts' where
      r: "wrapFieldsLoop k ts tname labels False typeMet = Some (err, ts', typeMet)"
      and fr: "\<forall>n. n \<noteq> tname \<longrightarrow> fields_of ts' n = fields_of ts n"
      and w: "err = None \<longrightarrow>
          (\<forall>l f. map_of (own_fields ts tname) l = Some f \<longrightarrow>
             (if l \<in> set labels \<and> \<not> typeMet_get typeMet (type_key (f_type f))
              then \<exists>r. resolveMiddlewareWrapper (f_resolve f) (f_directives f) = Inr r
                     \<and> map_of (own_fields ts' tname) l = Some (f\<lparr>f_resolve := Some r\<rparr>)
              else map_of (own_fields ts' tname) l = Some f))"
      by blast
    have "wrapFieldsLoop k ts tname (label # labels) False typeMet = Some (err, ts', typeMet)"
      unfolding wrapFieldsLoop_Cons_shallow None using r by simp
    moreover from w None have "err = None \<longrightarrow>
          (\<forall>l f. map_of (own_fields ts tname) l = Some f \<longrightarrow>
             (if l \<in> set (label # labels) \<and> \<not> typeMet_get typeMet (type_key (f_type f))
              then \<exists>r. resolveMiddlewareWrapper (f_resolve f) (f_directives f) = Inr r
                     \<and> map_of (own_fields ts' tname) l = Some (f\<lparr>f_resolve := Some r\<rparr>)
              else map_of (own_fields ts' tname) l = Some f))"
      by (metis list.set_intros(2) option.distinct(1) set_ConsD)
    ultimately show ?thesis using fr by blast
  next
    case (Some field)
    show ?thesis
    proof (cases "typeMet_get typeMet (type_key (f_type field))")
      case True
      from IH [of ts] obtain err ts' where
        r: "wrapFieldsLoop k ts tname labels False typeMet = Some (err, ts', typeMet)"
        and fr: "\<forall>n. n \<noteq> tname \<longrightarrow> fields_of ts' n = fields_of ts n"
        and w: "err = None \<longrightarrow>
          (\<forall>l f. map_of (own_fields ts tname) l = Some f \<longrightarrow>
             (if l \<in> set labels \<and> \<not> typeMet_get typeMet (type_key (f_type f))
              then \<exists>r. resolveMiddlewareWrapper (f_resolve f) (f_directives f) = Inr r
                     \<and> map_of (own_fields ts' tname) l = Some (f\<lparr>f_resolve := Some r\<rparr>)
              else map_of (own_fields ts' tname) l = Some f))"
        by blast
      have "wrapFieldsLoop k ts tname (label # labels) False typeMet = Some (err, ts', typeMet)"
        unfolding wrapFieldsLoop_Cons_shallow Some using r True by simp
      moreover from w Some True have "err = None \<longrightarrow>
          (\<forall>l f. map_of (own_fields ts tname) l = Some f \<longrightarrow>
             (if l \<in> set (label # labels) \<and> \<not> typeMet_get typeMet (type_key (f_type f))
              then \<exists>r. resolveMiddlewareWrapper (f_resolve f) (f_directives f) = Inr r
                     \<and> map_of (own_fields ts' tname) l = Some (f\<lparr>f_resolve := Some r\<rparr>)
              else map_of (own_fields ts' tname) l = Some f))"
        by (metis list.set_intros(2) option.inject set_ConsD)
      ultimately show ?thesis using fr by blast
    next
      case False
      show ?thesis
      proof (cases "resolveMiddlewareWrapper (f_resolve field) (f_directives field)")
        case (Inl e)
        have "wrapFieldsLoop k ts tname (label # labels) False typeMet = Some (Some e, ts, typeMet)"
          unfolding wrapFieldsLoop_Cons_shallow Some using False Inl by simp
        then show ?thesis by simp
      next
        case (Inr r)
        let ?ts1 = "set_resolve ts tname label r"
        from IH [of ?ts1] obtain err ts' where
          r: "wrapFieldsLoop k ?ts1 tname labels False typeMet = Some (err, ts', typeMet)"
          and fr: "\<forall>n. n \<noteq> tname \<longrightarrow> fields_of ts' n = fields_of ?ts1 n"
          and w: "err = None \<longrightarrow>
            (\<forall>l f. map_of (own_fields ?ts1 tname) l = Some f \<longrightarrow>
               (if l \<in> set labels \<and> \<not> typeMet_get typeMet (type_key (f_type f))
                then \<exists>r. resolveMiddlewareWrapper (f_resolve f) (f_directives f) = Inr r
                       \<and> map_of (own_fields ts' tname) l = Some (f\<lparr>f_resolve := Some r\<rparr>)
                else map_of (own_fields ts' tname) l = Some f))"
          by blast
        have res: "wrapFieldsLoop k ts tname (label # labels) False typeMet = Some (err, ts', typeMet)"
          unfolding wrapFieldsLoop_Cons_shallow Some using False Inr r by simp
        have fr': "\<forall>n. n \<noteq> tname \<longrightarrow> fields_of ts' n = fields_of ts n"
          using fr by (simp add: fields_of_set_resolve)
        have m1: "map_of (own_fields ?ts1 tname) l =
                    (if l = label then map_option (\<lambda>f. f\<lparr>f_resolve := Some r\<rparr>) (map_of (own_fields ts tname) l)
                     else map_of (own_fields ts tname) l)" for l
          unfolding own_fields_set_resolve by (simp add: map_of_set_field)
        have w': "err = None \<longrightarrow>
          (\<forall>l f. map_of (own_fields ts tname) l = Some f \<longrightarrow>
             (if l \<in> set (label # labels) \<and> \<not> typeMet_get typeMet (type_key (f_type f))
              then \<exists>r. resolveMiddlewareWrapper (f_resolve f) (f_directives f) = Inr r
                     \<and> map_of (own_fields ts' tname) l = Some (f\<lparr>f_resolve := Some r\<rparr>)
              else map_of (own_fields ts' tname) l = Some f))"
        proof (intro impI allI)
          fix l f
          assume en: "err = None" and lf: "map_of (own_fields ts tname) l = Some f"
          show "if l \<in> set (label # labels) \<and> \<not> typeMet_get typeMet (type_key (f_type f))
              then \<exists>r. resolveMiddlewareWrapper (f_resolve f) (f_directives f) = Inr r
                     \<and> map_of (own_fields ts' tname) l = Some (f\<lparr>f_resolve := Some r\<rparr>)
              else map_of (own_fields ts' tname) l = Some f"
          proof (cases "l = label")
            case True
            with lf Some have ff: "f = field" by simp
            from m1 [of l] True lf have "map_of (own_fields ?ts1 tname) l = Some (f\<lparr>f_resolve := Some r\<rparr>)"
              by simp
            with w en nl True have "map_of (own_fields ts' tname) l = Some (f\<lparr>f_resolve := Some r\<rparr>)"
              by (metis (no_types, lifting))
            with True False Inr ff show ?thesis by auto
          next
            case ne: False
            with m1 [of l] lf have "map_of (own_fields ?ts1 tname) l = Some f" by simp
            with w en have "if l \<in> set labels \<and> \<not> typeMet_get typeMet (type_key (f_type f))
                then \<exists>r. resolveMiddlewareWrapper (f_resolve f) (f_directives f) = Inr r
                       \<and> map_of (own_fields ts' tname) l = Some (f\<lparr>f_resolve := Some r\<rparr>)
                else map_of (own_fields ts' tname) l = Some f" by blast
            with ne show ?thesis by simp
          qed
        qed
        from res fr' w' show ?thesis by blast
      qed
    qed
  qed
qed


text \<open>
  The walk of a root with \<open>deepWrap = false\<close> returns and leaves the field map of every
  other type as it was; when it does not throw, each field of the root whose type name
  \<open>typeMet\<close> does not find has its resolver replaced by the wrapper around the previous
  one. The walk of an absent root changes nothing.
\<close>

lemma mutation_walk_shallow:
  assumes "distinct (map fst (own_fields ts root))"
  shows "(\<exists>err ts'. wrapRoot (Suc k) ts (Some root) False = Some (err, ts', {root})
            \<and> (\<forall>n. n \<noteq> root \<longrightarrow> fields_of ts' n = fields_of ts n)
            \<and> (err = None \<longrightarrow>
                 (\<forall>l f. map_of (own_fields ts root) l = Some f \<longrightarrow>
                    \<not> typeMet_get {root} (type_key (f_type f)) \<longrightarrow>
                    (\<exists>r. resolveMiddlewareWrapper (f_resolve f) (f_directives f) = Inr r
                        \<and> map_of (own_fields ts' root) l = Some (f\<lparr>f_resolve := Some r\<rparr>)))))
       \<and> wrapRoot k ts None deepWrap = Some (None, ts, {})"
proof -
  have nil: "wrapRoot k ts None deepWrap = Some (None, ts, {})"
    by (simp add: wrapRoot_def)
  have w: "wrapRoot (Suc k) ts (Some root) False
             = wrapFieldsLoop k ts root (map fst (own_fields ts root)) False {root}"
    by (cases "fields_of ts root") (simp_all add: wrapRoot_def own_fields_def)
  from shallow_loop [OF assms, of k ts root "{root}"]
  obtain err ts' where
    r: "wrapFieldsLoop k ts root (map fst (own_fields ts root)) False {root} = Some (err, ts', {root})"
    and fr: "\<forall>n. n \<noteq> root \<longrightarrow> fields_of ts' n = fields_of ts n"
    and wr: "err = None \<longrightarrow>
          (\<forall>l f. map_of (own_fields ts root) l = Some f \<longrightarrow>
             (if l \<in> set (map fst (own_fields ts root)) \<and> \<not> typeMet_get {root} (type_key (f_type f))
              then \<exists>r. resolveMiddlewareWrapper (f_resolve f) (f_directives f) = Inr r
                     \<and> map_of (own_fields ts' root) l = Some (f\<lparr>f_resolve := Some r\<rparr>)
              else map_of (own_fields ts' root) l = Some f))"
    by blast
  have wr': "err = None \<longrightarrow>
                 (\<forall>l f. map_of (own_fields ts root) l = Some f \<longrightarrow>
                    \<not> typeMet_get {root} (type_key (f_type f)) \<longrightarrow>
                    (\<exists>r. resolveMiddlewareWrapper (f_resolve f) (f_directives f) = Inr r
                        \<and> map_of (own_fields ts' root) l = Some (f\<lparr>f_resolve := Some r\<rparr>)))"
  proof (intro impI allI)
    fix l f
    assume en: "err = None" and lf: "map_of (own_fields ts root) l = Some f"
      and tk: "\<not> typeMet_get {root} (type_key (f_type f))"
    from lf have "(l, f) \<in> set (own_fields ts root)" by (rule map_of_SomeD)
    then have m: "l \<in> set (map fst (own_fields ts root))" by force
    from wr en have "\<forall>l f. map_of (own_fields ts root) l = Some f \<longrightarrow>
             (if l \<in> set (map fst (own_fields ts root)) \<and> \<not> typeMet_get {root} (type_key (f_type f))
              then \<exists>r. resolveMiddlewareWrapper (f_resolve f) (f_directives f) = Inr r
                     \<and> map_of (own_fields ts' root) l = Some (f\<lparr>f_resolve := Some r\<rparr>)
              else map_of (own_fields ts' root) l = Some f)" by simp
    with lf have "if l \<in> set (map fst (own_fields ts root)) \<and> \<not> typeMet_get {root} (type_key (f_type f))
              then \<exists>r. resolveMiddlewareWrapper (f_resolve f) (f_directives f) = Inr r
                     \<and> map_of (own_fields ts' root) l = Some (f\<lparr>f_resolve := Some r\<rparr>)
              else map_of (own_fields ts' root) l = Some f" by blast
    with m tk
    show "\<exists>r. resolveMiddlewareWrapper (f_resolve f) (f_directives f) = Inr r
                        \<and> map_of (own_fields ts' root) l = Some (f\<lparr>f_resolve := Some r\<rparr>)"
      by simp
  qed
  from r fr wr' have "\<exists>err ts'. wrapRoot (Suc k) ts (Some root) False = Some (err, ts', {root})
            \<and> (\<forall>n. n \<noteq> root \<longrightarrow> fields_of ts' n = fields_of ts n)
            \<and> (err = None \<longrightarrow>
                 (\<forall>l f. map_of (own_fields ts root) l = Some f \<longrightarrow>
                    \<not> typeMet_get {root} (type_key (f_type f)) \<longrightarrow>
                    (\<exists>r. resolveMiddlewareWrapper (f_resolve f) (f_directives f) = Inr r
                        \<and> map_of (own_fields ts' root) l = Some (f\<lparr>f_resolve := Some r\<rparr>))))"
    unfolding w by blast
  with nil show ?thesis by (rule conjI [rotated])
qed

text \<open>
  Claim C4 on two schemas. With \<open>type Item { name: String }  type Query { items: [Item] }\<close>
  the activation returns \<open>true\<close> and wraps \<open>Query.items\<close>, but \<open>Item.name\<close>, reachable
  from the root, keeps its resolver: behind a list or non-null wrapper the walk is
  called on the field map of the type instead of the type. With the self-referential
  \<open>type A { self: A, v: String }  type Query { a: A }\<close> the walk terminates and wraps
  \<open>A.v\<close>, but \<open>A.self\<close> keeps its resolver: the guard on the visited type names also
  skips the replacement of the resolver.
\<close>

theorem walk_leaves_reachable_fields_unwrapped:
  "completion_of (applySchemaCustomDirectives (GraphQLSchema list_schema)) = Some (Inr True)
   \<and> wrap_count (field_resolver (types_after (applySchemaCustomDirectives (GraphQLSchema list_schema)))
        ''Query'' ''items'') = 1
   \<and> wrap_count (field_resolver (types_after (applySchemaCustomDirectives (GraphQLSchema list_schema)))
        ''Item'' ''name'') = 0
   \<and> completion_of (applySchemaCustomDirectives (GraphQLSchema self_schema)) = Some (Inr True)
   \<and> wrap_count (field_resolver (types_after (applySchemaCustomDirectives (GraphQLSchema self_schema)))
        ''A'' ''v'') = 1
   \<and> wrap_count (field_resolver (types_after (applySchemaCustomDirectives (GraphQLSchema self_schema)))
        ''A'' ''self'') = 0"
  by code_simp

text \<open>
  Claim C7 on two schema instances, for which the activation throws a \<open>TypeError\<close>
  instead of returning \<open>true\<close>: a type with a field named \<open>_fields\<close> behind a list, and
  a field with the static directive configuration \<open>{ args: { by: null } }\<close>.
\<close>

theorem activation_throws_on_schema_instance:
  "completion_of (applySchemaCustomDirectives (GraphQLSchema fields_label_schema))
     = Some (Inl TypeError)
   \<and> completion_of (applySchemaCustomDirectives (GraphQLSchema args_directive_schema))
     = Some (Inl TypeError)"
  by code_simp

text \<open>What does hold of claim C7: a value that is not a schema is refused, untouched.\<close>

lemma activation_refuses_other_values:
  "applySchemaCustomDirectives (NotASchema v)
     = Some (Inl (Err ''Schema must be instanceof GraphQLSchema''), NotASchema v)"
  by (simp add: applySchemaCustomDirectives_def)

text \<open>
  Claim C8, as stated, fails when a type returned by a mutation field is also reachable
  from the query root: after the activation the field \<open>User.n\<close> is wrapped (by the walk
  of the query root), although \<open>User\<close> is the type of the mutation field \<open>m\<close>.
\<close>

theorem shared_type_wrapped_after_activation:
  "wrap_count (field_resolver (types shared_type_schema) ''User'' ''n'') = 0
   \<and> wrap_count (field_resolver (types shared_type_schema) ''Mutation'' ''m'') = 0
   \<and> completion_of (applySchemaCustomDirectives (GraphQLSchema shared_type_schema)) = Some (Inr True)
   \<and> wrap_count (field_resolver (types_after (applySchemaCustomDirectives (GraphQLSchema shared_type_schema)))
        ''Mutation'' ''m'') = 1
   \<and> wrap_count (field_resolver (types_after (applySchemaCustomDirectives (GraphQLSchema shared_type_schema)))
        ''User'' ''n'') = 1"
  by code_simp


section \<open>Termination of the schema walk\<close>

lemma set_resolve_names: "map fst (set_resolve ts tname label r) = map fst ts"
  unfolding set_resolve_def by (induction ts) auto

lemma type_fields_named:
  "type_fields ts t \<noteq> None \<Longrightarrow> t = Named (type_key t) \<and> type_key t \<in> set (map fst ts)"
proof (cases t)
  case (Named n)
  assume "type_fields ts t \<noteq> None"
  with Named have "map_of ts n \<noteq> None"
    by (auto simp: fields_of_def split: option.splits)
  then have "n \<in> fst ` set ts" by (simp add: map_of_eq_None_iff)
  with Named show ?thesis by simp
qed simp_all

lemma card_unvisited_less:
  assumes "n \<in> set (map fst ts)" and "n \<notin> met"
  shows "card (set (map fst ts) - insert n met) < card (set (map fst ts) - met)"
proof -
  have "set (map fst ts) - insert n met \<subset> set (map fst ts) - met"
    using assms by auto
  then show ?thesis by (simp add: psubset_card_mono)
qed

lemma card_unvisited_mono:
  "met \<subseteq> met' \<Longrightarrow> card (set (map fst ts) - met') \<le> card (set (map fst ts) - met)"
  by (rule card_mono) auto

lemma same_labels_refl: "same_labels ts ts"
  by (simp add: same_labels_def)

lemma same_labels_trans: "same_labels ts'' ts' \<Longrightarrow> same_labels ts' ts \<Longrightarrow> same_labels ts'' ts"
  by (simp add: same_labels_def)

lemma set_resolve_labels: "same_labels (set_resolve ts tname label r) ts"
proof -
  have "map fst (map (\<lambda>(l, f). if l = label then (l, f\<lparr>f_resolve := Some r\<rparr>) else (l, f)) fs)
          = map fst fs" for fs :: "('a, 'b) fieldmap"
    by (induction fs) auto
  then show ?thesis
    unfolding same_labels_def own_fields_set_resolve by simp
qed

lemma walk_ok_trans:
  assumes w: "walk_ok r ts' met'"
    and n: "map fst ts' = map fst ts" and l: "same_labels ts' ts" and m: "met \<subseteq> met'"
  shows "walk_ok r ts met"
proof -
  from w obtain e ts2 met2 where
    r: "r = Some (e, ts2, met2)" and n2: "map fst ts2 = map fst ts'"
    and l2: "same_labels ts2 ts'" and m2: "met' \<subseteq> met2"
    unfolding walk_ok_def by blast
  from l2 l have "same_labels ts2 ts" by (rule same_labels_trans)
  moreover from n2 n have "map fst ts2 = map fst ts" by simp
  moreover from m m2 have "met \<subseteq> met2" by (rule subset_trans)
  ultimately show ?thesis unfolding walk_ok_def using r by simp
qed

lemma wrapFieldsLoop_step:
  assumes "map_of (case fields_of ts tname of None \<Rightarrow> [] | Some fs \<Rightarrow> fs) label = Some field"
    and "\<not> typeMet_get met (type_key (f_type field))"
    and "resolveMiddlewareWrapper (f_resolve field) (f_directives field) = Inr r"
  shows "wrapFieldsLoop k ts tname (label # labels) d met =
     (if type_fields (set_resolve ts tname label r) (f_type field) \<noteq> None \<and> d then
        (case wrapFieldsWithMiddleware k (set_resolve ts tname label r) (type_key (f_type field)) d met of
           None \<Rightarrow> None
         | Some (Some e, ts'', typeMet') \<Rightarrow> Some (Some e, ts'', typeMet')
         | Some (None, ts'', typeMet') \<Rightarrow> wrapFieldsLoop k ts'' tname labels d typeMet')
      else if (case ofType (f_type field) of
                 None \<Rightarrow> False
               | Some t \<Rightarrow> type_fields (set_resolve ts tname label r) t \<noteq> None) \<and> d then
        (case type_fields (set_resolve ts tname label r) (unwrap (f_type field)) of
           None \<Rightarrow> wrapFieldsLoop k (set_resolve ts tname label r) tname labels d met
         | Some childFields \<Rightarrow>
             (case wrapFieldsWithMiddleware_fieldmap childFields of
                Some e \<Rightarrow> Some (Some e, set_resolve ts tname label r, met)
              | None \<Rightarrow> wrapFieldsLoop k (set_resolve ts tname label r) tname labels d met))
      else wrapFieldsLoop k (set_resolve ts tname label r) tname labels d met)"
  by (simp add: assms Let_def)

lemma loop_ok:
  fixes ts :: "('c, 'i) types"
  assumes walk: "\<And>(ts :: ('c, 'i) types) t met. card (set (map fst ts) - insert t met) < k
                   \<Longrightarrow> walk_ok (wrapFieldsWithMiddleware k ts t d met) ts (insert t met)"
  shows "card (set (map fst ts) - met) \<le> k
           \<Longrightarrow> walk_ok (wrapFieldsLoop k ts tname labels d met) ts met"
proof (induction labels arbitrary: ts met)
  case Nil
  show ?case by (simp add: walk_ok_def same_labels_refl)
next
  case (Cons label labels)
  note bound = Cons.prems
  note skip = Cons.IH [OF bound]
  show ?case
  proof (cases "map_of (case fields_of ts tname of None \<Rightarrow> [] | Some fs \<Rightarrow> fs) label")
    case None
    with skip show ?thesis by simp
  next
    case field: (Some field)
    show ?thesis
    proof (cases "typeMet_get met (type_key (f_type field))")
      case True
      with field skip show ?thesis by simp
    next
      case unmet: False
      show ?thesis
      proof (cases "resolveMiddlewareWrapper (f_resolve field) (f_directives field)")
        case (Inl e)
        with field unmet show ?thesis by (simp add: walk_ok_def same_labels_refl)
      next
        case (Inr r)
        note step = wrapFieldsLoop_step [OF field unmet Inr]
        let ?ts1 = "set_resolve ts tname label r"
        have n1: "map fst ?ts1 = map fst ts" by (rule set_resolve_names)
        have l1: "same_labels ?ts1 ts" by (rule set_resolve_labels)
        from bound have b1: "card (set (map fst ?ts1) - met) \<le> k" unfolding n1 .
        have cont: "walk_ok (wrapFieldsLoop k ?ts1 tname labels d met) ts met"
          using Cons.IH [OF b1] n1 l1 by (rule walk_ok_trans) simp
        have stop: "walk_ok (Some (Some err, ?ts1, met)) ts met" for err
          by (simp add: walk_ok_def n1 l1)
        show ?thesis
        proof (cases "type_fields ?ts1 (f_type field) \<noteq> None \<and> d")
          case deep: True
          let ?n = "type_key (f_type field)"
          from deep type_fields_named [of ?ts1 "f_type field"]
          have mem: "?n \<in> set (map fst ?ts1)" by blast
          from unmet have nm: "?n \<notin> met" by (simp add: typeMet_get_def)
          from card_unvisited_less [OF mem nm] b1
          have "card (set (map fst ?ts1) - insert ?n met) < k" by simp
          from walk [OF this] obtain e ts2 met2 where
            w: "wrapFieldsWithMiddleware k ?ts1 ?n d met = Some (e, ts2, met2)"
            and n2: "map fst ts2 = map fst ?ts1" and l2: "same_labels ts2 ?ts1"
            and m2: "insert ?n met \<subseteq> met2"
            unfolding walk_ok_def by blast
          from l2 l1 have l21: "same_labels ts2 ts" by (rule same_labels_trans)
          from m2 have m2': "met \<subseteq> met2" by auto
          show ?thesis
          proof (cases e)
            case None
            from card_unvisited_mono [OF m2', of ts] bound
            have "card (set (map fst ts2) - met2) \<le> k" unfolding n2 n1 by simp
            from Cons.IH [OF this]
            have "walk_ok (wrapFieldsLoop k ts2 tname labels d met2) ts met"
              by (rule walk_ok_trans) (simp_all add: n2 n1 m2' l21)
            then show ?thesis
              unfolding step if_P [OF deep] w None by simp
          next
            case (Some err)
            have "walk_ok (Some (Some err, ts2, met2)) ts met"
              by (simp add: walk_ok_def n2 n1 m2' l21)
            then show ?thesis
              unfolding step if_P [OF deep] w Some by simp
          qed
        next
          case shallow: False
          show ?thesis
          proof (cases "(case ofType (f_type field) of None \<Rightarrow> False
                           | Some t \<Rightarrow> type_fields ?ts1 t \<noteq> None) \<and> d")
            case wrapped: True
            show ?thesis
            proof (cases "type_fields ?ts1 (unwrap (f_type field))")
              case None
              with cont show ?thesis
                unfolding step if_not_P [OF shallow] if_P [OF wrapped] by simp
            next
              case (Some childFields)
              show ?thesis
              proof (cases "wrapFieldsWithMiddleware_fieldmap childFields")
                case None
                with cont show ?thesis
                  unfolding step if_not_P [OF shallow] if_P [OF wrapped] Some by simp
              next
                case err: (Some err)
                from stop [of err] err show ?thesis
                  unfolding step if_not_P [OF shallow] if_P [OF wrapped] Some by simp
              qed
            qed
          next
            case plain: False
            from cont show ?thesis
              unfolding step if_not_P [OF shallow] if_not_P [OF plain] .
          qed
        qed
      qed
    qed
  qed
qed

lemma walk_returns:
  "card (set (map fst ts) - insert t met) < k
     \<Longrightarrow> walk_ok (wrapFieldsWithMiddleware k ts t d met) ts (insert t met)"
proof (induction k arbitrary: ts t met)
  case 0
  then show ?case by simp
next
  case (Suc k)
  show ?case
  proof (cases "fields_of ts t")
    case None
    then show ?thesis by (auto simp: walk_ok_def same_labels_refl)
  next
    case (Some fieldMap)
    from Suc.prems have "card (set (map fst ts) - insert t met) \<le> k" by simp
    from loop_ok [of k d ts "insert t met" t "map fst fieldMap", OF Suc.IH this]
    show ?thesis using Some by simp
  qed
qed

lemma wrapRoot_returns:
  "length ts < k \<Longrightarrow>
     \<exists>e ts' met. wrapRoot k ts root d = Some (e, ts', met) \<and> map fst ts' = map fst ts
        \<and> same_labels ts' ts"
proof (cases root)
  case None
  then show ?thesis by (simp add: wrapRoot_def same_labels_refl)
next
  case (Some t)
  assume k: "length ts < k"
  have "card (set (map fst ts) - insert t {}) \<le> card (set (map fst ts))"
    by (rule card_mono) auto
  also have "\<dots> \<le> length (map fst ts)" by (rule card_length)
  finally have "card (set (map fst ts) - insert t {}) < k" using k by simp
  from walk_returns [OF this, of d] show ?thesis
    unfolding wrapRoot_def Some walk_ok_def by auto
qed

text \<open>
  The activation returns on every argument: the bound on the nesting of the walk, the
  number of named types, is never reached, since each nested call is on a type of the
  table whose name is not yet in \<open>typeMet\<close>, and adds that name.
\<close>

lemma activation_returns: "applySchemaCustomDirectives a \<noteq> None"
proof (cases a)
  case (NotASchema v)
  then show ?thesis by (simp add: applySchemaCustomDirectives_def)
next
  case (GraphQLSchema s)
  from wrapRoot_returns [of "types s" "Suc (length (types s))" "queryType s" True]
  obtain e ts' met where
    q: "wrapRoot (Suc (length (types s))) (types s) (queryType s) True = Some (e, ts', met)"
    and n: "map fst ts' = map fst (types s)" by auto
  from n have "length ts' = length (types s)" by (metis length_map)
  with wrapRoot_returns [of ts' "Suc (length (types s))" "mutationType s" False]
  obtain e2 ts2 met2 where
    m: "wrapRoot (Suc (length (types s))) ts' (mutationType s) False = Some (e2, ts2, met2)"
    by auto
  show ?thesis
    unfolding applySchemaCustomDirectives_def GraphQLSchema
    using q m by (cases e; cases e2) simp_all
qed


section \<open>The activation and the mutation root\<close>

text \<open>
  Claim C8, as amended. After an activation that returned \<open>true\<close>: every type other than
  the mutation root has exactly the field map that the walk of the query root left, so
  the walk of the mutation root does not descend below the root, and a field of another
  type, such as the type returned by a mutation field, is wrapped only if the walk of the
  query root wrapped it;
  each of the mutation root's own fields whose type name the lookup in \<open>typeMet\<close> does
  not find (it finds the root's own name and the names of the members a plain object
  inherits, such as \<open>constructor\<close>) has its resolver replaced by the wrapper around the
  resolver it had after the walk of the query root. For an absent mutation root the
  schema is as the walk of the query root left it, and for an absent query root that
  walk changes nothing. (The labels of a field map are the keys of an object, hence
  distinct.)
\<close>

theorem activation_wraps_mutation_root_only:
  assumes returned: "completion_of (applySchemaCustomDirectives (GraphQLSchema s)) = Some (Inr True)"
    and keys: "\<forall>root. mutationType s = Some root
                 \<longrightarrow> distinct (map fst (own_fields (types s) root))"
  shows "(case mutationType s of
            None \<Rightarrow>
              types_after (applySchemaCustomDirectives (GraphQLSchema s)) = after_query_walk s
          | Some root \<Rightarrow>
              (\<forall>n. n \<noteq> root \<longrightarrow>
                 fields_of (types_after (applySchemaCustomDirectives (GraphQLSchema s))) n
                   = fields_of (after_query_walk s) n)
            \<and> (\<forall>l f. map_of (own_fields (after_query_walk s) root) l = Some f \<longrightarrow>
                 \<not> typeMet_get {root} (type_key (f_type f)) \<longrightarrow>
                 (\<exists>r. resolveMiddlewareWrapper (f_resolve f) (f_directives f) = Inr r
                    \<and> map_of (own_fields (types_after (applySchemaCustomDirectives
                                                       (GraphQLSchema s))) root) l
                        = Some (f\<lparr>f_resolve := Some r\<rparr>))))
       \<and> (queryType s = None \<longrightarrow> after_query_walk s = types s)"
proof -
  let ?K = "Suc (length (types s))"
  from wrapRoot_returns [of "types s" ?K "queryType s" True]
  obtain q ts1 met1 where
    qw: "wrapRoot ?K (types s) (queryType s) True = Some (q, ts1, met1)"
    and n1: "map fst ts1 = map fst (types s)" and l1: "same_labels ts1 (types s)"
    by auto
  have aq: "after_query_walk s = ts1"
    unfolding after_query_walk_def qw by simp
  from n1 have len: "length ts1 = length (types s)" by (metis length_map)
  with wrapRoot_returns [of ts1 ?K "mutationType s" False]
  obtain e2 ts2 met2 where
    mw: "wrapRoot ?K ts1 (mutationType s) False = Some (e2, ts2, met2)"
    by auto
  have ap: "applySchemaCustomDirectives (GraphQLSchema s) =
              (case q of
                 Some e \<Rightarrow> Some (Inl e, GraphQLSchema (s\<lparr>types := ts1\<rparr>))
               | None \<Rightarrow>
                   (case e2 of
                      Some e \<Rightarrow> Some (Inl e, GraphQLSchema (s\<lparr>types := ts2\<rparr>))
                    | None \<Rightarrow> Some (Inr True, GraphQLSchema (s\<lparr>types := ts2\<rparr>))))"
  proof (cases q)
    case None
    show ?thesis
      unfolding applySchemaCustomDirectives_def activation_arg.case qw None
      by (cases e2) (simp_all add: mw)
  next
    case (Some e)
    show ?thesis
      unfolding applySchemaCustomDirectives_def activation_arg.case qw Some
      by simp
  qed
  from returned have q: "q = None"
    unfolding ap completion_of_def by (cases q) simp_all
  from returned have e2: "e2 = None"
    unfolding ap completion_of_def q by (cases e2) simp_all
  have ta: "types_after (applySchemaCustomDirectives (GraphQLSchema s)) = ts2"
    unfolding ap types_after_def q e2 by simp
  have nilq: "queryType s = None \<longrightarrow> after_query_walk s = types s"
  proof
    assume "queryType s = None"
    then have "wrapRoot ?K (types s) (queryType s) True = Some (None, types s, {})"
      by (simp add: wrapRoot_def)
    then show "after_query_walk s = types s"
      unfolding after_query_walk_def by simp
  qed
  have mut: "case mutationType s of
            None \<Rightarrow> ts2 = ts1
          | Some root \<Rightarrow>
              (\<forall>n. n \<noteq> root \<longrightarrow> fields_of ts2 n = fields_of ts1 n)
            \<and> (\<forall>l f. map_of (own_fields ts1 root) l = Some f \<longrightarrow>
                 \<not> typeMet_get {root} (type_key (f_type f)) \<longrightarrow>
                 (\<exists>r. resolveMiddlewareWrapper (f_resolve f) (f_directives f) = Inr r
                    \<and> map_of (own_fields ts2 root) l = Some (f\<lparr>f_resolve := Some r\<rparr>)))"
  proof (cases "mutationType s")
    case None
    with mw show ?thesis by (simp add: wrapRoot_def)
  next
    case (Some root)
    from keys Some have "distinct (map fst (own_fields (types s) root))" by simp
    with l1 have d: "distinct (map fst (own_fields ts1 root))"
      by (simp add: same_labels_def)
    from mutation_walk_shallow [OF d, of "length (types s)"]
    obtain err ts' where
      w: "wrapRoot ?K ts1 (Some root) False = Some (err, ts', {root})"
      and fr: "\<forall>n. n \<noteq> root \<longrightarrow> fields_of ts' n = fields_of ts1 n"
      and wr: "err = None \<longrightarrow>
                 (\<forall>l f. map_of (own_fields ts1 root) l = Some f \<longrightarrow>
                    \<not> typeMet_get {root} (type_key (f_type f)) \<longrightarrow>
                    (\<exists>r. resolveMiddlewareWrapper (f_resolve f) (f_directives f) = Inr r
                        \<and> map_of (own_fields ts' root) l = Some (f\<lparr>f_resolve := Some r\<rparr>)))"
      by blast
    from w mw Some e2 have "err = None" and "ts' = ts2" by simp_all
    with fr wr show ?thesis unfolding Some by simp
  qed
  from mut nilq show ?thesis unfolding ta aq by (rule conjI)
qed

theorem activation_wraps_mutation_root_only_witness:
  "completion_of (applySchemaCustomDirectives (GraphQLSchema mutation_schema)) = Some (Inr True)
   \<and> distinct (map fst (own_fields (types mutation_schema) ''Mutation''))
   \<and> fields_of (types_after (applySchemaCustomDirectives (GraphQLSchema mutation_schema))) ''User''
       = fields_of (after_query_walk mutation_schema) ''User''
   \<and> fields_of (types_after (applySchemaCustomDirectives (GraphQLSchema mutation_schema)))
         ''constructor''
       = fields_of (after_query_walk mutation_schema) ''constructor''
   \<and> wrap_count (field_resolver (after_query_walk mutation_schema) ''Mutation'' ''m'') = 0
   \<and> wrap_count (field_resolver (types_after (applySchemaCustomDirectives
                                     (GraphQLSchema mutation_schema))) ''Mutation'' ''m'') = 1
   \<and> wrap_count (field_resolver (after_query_walk mutation_schema) ''User'' ''n'') = 1
   \<and> wrap_count (field_resolver (types_after (applySchemaCustomDirectives
                                     (GraphQLSchema mutation_schema))) ''User'' ''n'') = 1
   \<and> wrap_count (field_resolver (types_after (applySchemaCustomDirectives
                                     (GraphQLSchema mutation_schema))) ''constructor'' ''x'') = 0"
proof -
  let ?S = "mutation_schema"
  let ?A = "types_after (applySchemaCustomDirectives (GraphQLSchema ?S))"
  have c: "completion_of (applySchemaCustomDirectives (GraphQLSchema ?S)) = Some (Inr True)"
    by code_simp
  have d: "distinct (map fst (own_fields (types ?S) ''Mutation''))"
    by code_simp
  have mt: "mutationType ?S = Some ''Mutation''"
    by (simp add: mutation_schema_def)
  from d mt have k: "\<forall>root. mutationType ?S = Some root
                 \<longrightarrow> distinct (map fst (own_fields (types ?S) root))"
    by simp
  from activation_wraps_mutation_root_only [OF c k]
  have "\<forall>n. n \<noteq> ''Mutation'' \<longrightarrow> fields_of ?A n = fields_of (after_query_walk ?S) n"
    unfolding mt option.case by (rule conjunct1 [OF conjunct1])
  then have u: "fields_of ?A ''User'' = fields_of (after_query_walk ?S) ''User''"
    and v: "fields_of ?A ''constructor'' = fields_of (after_query_walk ?S) ''constructor''"
    by simp_all
  have w1: "wrap_count (field_resolver (after_query_walk ?S) ''Mutation'' ''m'') = 0"
    and w2: "wrap_count (field_resolver ?A ''Mutation'' ''m'') = 1"
    and w3: "wrap_count (field_resolver (after_query_walk ?S) ''User'' ''n'') = 1"
    and w4: "wrap_count (field_resolver ?A ''User'' ''n'') = 1"
    and w5: "wrap_count (field_resolver ?A ''constructor'' ''x'') = 0"
    by code_simp+
  show ?thesis
    by (rule conjI [OF c conjI [OF d conjI [OF u conjI [OF v conjI [OF w1 conjI [OF w2
          conjI [OF w3 conjI [OF w4 w5]]]]]]]])
qed

text \<open>
  In the example, the two fields of the mutation root whose type name \<open>typeMet\<close> finds
  keep their resolvers.
\<close>

lemma mutation_root_skips:
  "wrap_count (field_resolver (types_after (applySchemaCustomDirectives
                                     (GraphQLSchema mutation_schema))) ''Mutation'' ''again'') = 0
   \<and> wrap_count (field_resolver (types_after (applySchemaCustomDirectives
                                     (GraphQLSchema mutation_schema))) ''Mutation'' ''made'') = 0"
  by code_simp


end
